theory Spec2Isabelle
  imports Complex_Main "HOL-Library.Word" "HOL-Library.Log_Nat"
begin

section \<open>Audio capture: gain amplification\<close>

text \<open>
  The streaming caption application (\<^verbatim>\<open>streaming_caption_app.py\<close>) amplifies every
  frame delivered by the microphone callback before the frame is queued:
  \<^verbatim>\<open>
  def amplify_audio(audio_data, gain=GAIN):
      samples = struct.unpack(f'<{len(audio_data)//2}h', audio_data)
      amplified = []
      for sample in samples:
          new_sample = int(sample * gain)
          new_sample = max(-32768, min(32767, new_sample))
          amplified.append(new_sample)
      return struct.pack(f'<{len(amplified)}h', *amplified)
  \<close>
  A \<^verbatim>\<open>bytes\<close> object is a list of 8-bit words. The format \<^verbatim>\<open><Nh\<close> reads and
  writes \<open>N\<close> little-endian two's-complement 16-bit integers; \<^verbatim>\<open>struct.unpack\<close> raises
  \<^verbatim>\<open>struct.error\<close> unless the buffer holds exactly \<open>2 * N\<close> bytes, and
  \<^verbatim>\<open>struct.pack\<close> raises it for a value outside \<open>[-32768, 32767]\<close>.

  The gain is a Python number: an \<^verbatim>\<open>int\<close>, or a \<^verbatim>\<open>float\<close> as the default
  \<^verbatim>\<open>GAIN = 3.0\<close>. A float is an IEEE 754 binary64 value: a rational number (the sign
  of a zero plays no part here), an infinity or a NaN. \<^verbatim>\<open>int(x)\<close> of a float truncates
  towards zero, and raises \<^verbatim>\<open>OverflowError\<close> for an infinity and \<^verbatim>\<open>ValueError\<close>
  for a NaN. Every raise is a branch of the model.
\<close>

type_synonym byte = "8 word"
type_synonym bytes = "byte list"

datatype py_error = Struct_error | Overflow_error | Value_error

datatype pyfloat = Finite rat | Pos_inf | Neg_inf | NaN

datatype py_number = Py_int int | Py_float pyfloat

definition RATE :: nat where
  "RATE = 16000"

definition GAIN :: py_number where
  "GAIN = Py_float (Finite 3)"

definition int16_of_bytes :: "byte \<Rightarrow> byte \<Rightarrow> int" where
  "int16_of_bytes lo hi =
     (let u = uint lo + 256 * uint hi in if u < 32768 then u else u - 65536)"

fun unpack_pairs :: "bytes \<Rightarrow> int list" where
  "unpack_pairs (lo # hi # rest) = int16_of_bytes lo hi # unpack_pairs rest"
| "unpack_pairs _ = []"

definition struct_unpack_h :: "nat \<Rightarrow> bytes \<Rightarrow> py_error + int list" where
  "struct_unpack_h n data =
     (if length data = 2 * n then Inr (unpack_pairs data) else Inl Struct_error)"

definition bytes_of_int16 :: "int \<Rightarrow> bytes" where
  "bytes_of_int16 v = [word_of_int (v mod 256), word_of_int ((v div 256) mod 256)]"

fun struct_pack_h :: "int list \<Rightarrow> py_error + bytes" where
  "struct_pack_h [] = Inr []"
| "struct_pack_h (v # vs) =
     (if - 32768 \<le> v \<and> v \<le> 32767
      then (case struct_pack_h vs of
              Inl e \<Rightarrow> Inl e
            | Inr bs \<Rightarrow> Inr (bytes_of_int16 v @ bs))
      else Inl Struct_error)"

text \<open>
  The float product. \<^verbatim>\<open>sample * gain\<close> with a float gain converts the sample to a
  float, which is exact for a 16-bit sample, and multiplies: the exact product is
  rounded to the nearest binary64 value, a tie to the one with an even significand.
  For \<open>x \<noteq> 0\<close> with \<open>2\<^sup>e \<le> |x| < 2\<^sup>e\<^sup>+\<^sup>1\<close> the binary64 values around \<open>|x|\<close> are
  the multiples of \<open>2\<^sup>e\<^sup>-\<^sup>5\<^sup>2\<close>, or of \<open>2\<^sup>-\<^sup>1\<^sup>0\<^sup>7\<^sup>4\<close> in the subnormal range
  \<open>e < -1022\<close>; a rounded magnitude of \<open>2\<^sup>1\<^sup>0\<^sup>2\<^sup>4\<close> or more is an infinity. The
  exponent \<open>e\<close> of a fraction \<open>p / q\<close> is the difference of the bit lengths of \<open>p\<close>
  and \<open>q\<close>, or one less. A zero sample times an infinity is a NaN.
\<close>

definition round_half_even :: "rat \<Rightarrow> int" where
  "round_half_even x =
     (let n = \<lfloor>x\<rfloor>; d = x - of_int n
      in if d < 1 / 2 then n else if 1 / 2 < d then n + 1 else if even n then n else n + 1)"

definition float_exponent :: "rat \<Rightarrow> int" where
  "float_exponent x =
     (let (p, q) = quotient_of \<bar>x\<bar>; k = bitlen p - bitlen q
      in if 2 powi k \<le> \<bar>x\<bar> then k else k - 1)"

definition round_double :: "rat \<Rightarrow> pyfloat" where
  "round_double x =
     (if x = 0 then Finite 0
      else
        let ulp = 2 powi (max (float_exponent x) (- 1022) - 52);
            y = of_int (round_half_even (\<bar>x\<bar> / ulp)) * ulp
        in if 2 ^ 1024 \<le> y then (if 0 < x then Pos_inf else Neg_inf)
           else Finite (if 0 < x then y else - y))"

fun float_mul_int :: "int \<Rightarrow> pyfloat \<Rightarrow> pyfloat" where
  "float_mul_int sample (Finite g) = round_double (of_int sample * g)"
| "float_mul_int sample Pos_inf =
     (if sample = 0 then NaN else if 0 < sample then Pos_inf else Neg_inf)"
| "float_mul_int sample Neg_inf =
     (if sample = 0 then NaN else if 0 < sample then Neg_inf else Pos_inf)"
| "float_mul_int sample NaN = NaN"

fun py_mul :: "int \<Rightarrow> py_number \<Rightarrow> py_number" where
  "py_mul sample (Py_int g) = Py_int (sample * g)"
| "py_mul sample (Py_float g) = Py_float (float_mul_int sample g)"

fun py_int :: "py_number \<Rightarrow> py_error + int" where
  "py_int (Py_int n) = Inr n"
| "py_int (Py_float (Finite y)) = Inr (if 0 \<le> y then \<lfloor>y\<rfloor> else \<lceil>y\<rceil>)"
| "py_int (Py_float Pos_inf) = Inl Overflow_error"
| "py_int (Py_float Neg_inf) = Inl Overflow_error"
| "py_int (Py_float NaN) = Inl Value_error"

text \<open>
  The loop of \<^verbatim>\<open>amplify_audio\<close> raises at the first sample whose product does not
  convert; otherwise it appends the clipped value.
\<close>

fun amplify_samples :: "py_number \<Rightarrow> int list \<Rightarrow> py_error + int list" where
  "amplify_samples gain [] = Inr []"
| "amplify_samples gain (sample # samples) =
     (case py_int (py_mul sample gain) of
        Inl e \<Rightarrow> Inl e
      | Inr new_sample \<Rightarrow>
          (case amplify_samples gain samples of
             Inl e \<Rightarrow> Inl e
           | Inr amplified \<Rightarrow> Inr (max (- 32768) (min 32767 new_sample) # amplified)))"

definition amplify_audio :: "bytes \<Rightarrow> py_number \<Rightarrow> py_error + bytes" where
  "amplify_audio audio_data gain =
     (case struct_unpack_h (length audio_data div 2) audio_data of
        Inl e \<Rightarrow> Inl e
      | Inr samples \<Rightarrow>
          (case amplify_samples gain samples of
             Inl e \<Rightarrow> Inl e
           | Inr amplified \<Rightarrow> struct_pack_h amplified))"


section \<open>Events, messages and service responses\<close>

text \<open>
  Everything the application sends to its subscribers goes through
  \<^verbatim>\<open>socketio.emit(name, payload)\<close>; an event is the name with the fields of its
  payload. The \<^verbatim>\<open>print\<close> calls are kept as a second output stream, one constructor per
  message, and the one-shot \<^verbatim>\<open>client.recognize\<close> calls of the diarization pass
  are recorded with the audio they send. Python integers are \<open>int\<close>; positions in a
  list and lengths are \<open>nat\<close>.
\<close>

datatype event =
    Interim string
  | Final int string
  | Speaker_update int int string string
  | Status string
  | Error_event string

datatype log =
    Diarization_thread_started
  | Final_line int string
  | Streaming_error string
  | Waiting_for_more_audio
  | Running_diarization nat
  | Got_words nat
  | Assigned string int string
  | No_diarization_results
  | Diarization_error string

record sinks =
  emitted :: "event list"
  printed :: "log list"
  recognize_calls :: "bytes list"

text \<open>
  A response of the recognition service has a list \<^verbatim>\<open>results\<close>; a result has a list
  \<^verbatim>\<open>alternatives\<close> and the flag \<^verbatim>\<open>is_final\<close>; an alternative has the
  \<^verbatim>\<open>transcript\<close> and, in a diarization response, the \<^verbatim>\<open>words\<close> with their speaker
  tags. The reconciler reads the tag with \<^verbatim>\<open>getattr(word_info, 'speaker_tag', 1)\<close>, so
  a word may lack the attribute. A call of the service either raises or returns.
\<close>

record word_info =
  wi_word :: string
  speaker_tag :: "int option"

record alternative =
  transcript :: string
  words :: "word_info list"

record result =
  alternatives :: "alternative list"
  is_final :: bool

type_synonym response = "result list"

datatype diar_outcome = Raises string | Returns response

text \<open>
  An entry of \<^verbatim>\<open>transcript_buffer\<close> is the dictionary
  \<^verbatim>\<open>{'id': caption_id, 'text': transcript, 'time': time.time()}\<close>; the clock reading is
  supplied by the environment.
\<close>

record caption =
  seg_id :: int
  seg_text :: string
  seg_time :: rat

section \<open>Text of a segment\<close>

text \<open>
  A Python \<^verbatim>\<open>str\<close> is a sequence of Unicode code points. A character of the model is
  a code point below 256 (the type \<open>char\<close>: ASCII and the Latin-1 supplement), and a
  string is a list of them; on these code points the three tables below are those of
  Python: \<^verbatim>\<open>str.isspace\<close> (the characters at which \<^verbatim>\<open>str.split()\<close> cuts),
  \<^verbatim>\<open>str.isalnum\<close> (letters, digits and numeric characters) and \<^verbatim>\<open>str.lower\<close>, which
  maps each of these code points to one code point. \<^verbatim>\<open>str.split()\<close> cuts at runs of
  whitespace and yields no empty string. \<^verbatim>\<open>w.startswith(p)\<close> holds when \<open>p\<close> is a
  prefix of \<open>w\<close>.
\<close>

definition isspace :: "char \<Rightarrow> bool" where
  "isspace c =
     (let n = (of_char c :: nat)
      in (9 \<le> n \<and> n \<le> 13) \<or> (28 \<le> n \<and> n \<le> 32) \<or> n = 133 \<or> n = 160)"

definition isalnum :: "char \<Rightarrow> bool" where
  "isalnum c =
     (let n = (of_char c :: nat)
      in (48 \<le> n \<and> n \<le> 57) \<or> (65 \<le> n \<and> n \<le> 90) \<or> (97 \<le> n \<and> n \<le> 122)
         \<or> n = 170 \<or> (178 \<le> n \<and> n \<le> 179) \<or> n = 181 \<or> (185 \<le> n \<and> n \<le> 186)
         \<or> (188 \<le> n \<and> n \<le> 190) \<or> (192 \<le> n \<and> n \<le> 214) \<or> (216 \<le> n \<and> n \<le> 246)
         \<or> (248 \<le> n \<and> n \<le> 255))"

definition lower_char :: "char \<Rightarrow> char" where
  "lower_char c =
     (let n = (of_char c :: nat)
      in if (65 \<le> n \<and> n \<le> 90) \<or> (192 \<le> n \<and> n \<le> 214) \<or> (216 \<le> n \<and> n \<le> 222)
         then char_of (n + 32) else c)"

definition lower :: "string \<Rightarrow> string" where
  "lower s = map lower_char s"

fun split_from :: "string \<Rightarrow> string \<Rightarrow> string list" where
  "split_from cur [] = (if cur = [] then [] else [cur])"
| "split_from cur (c # cs) =
     (if isspace c
      then (if cur = [] then split_from [] cs else cur # split_from [] cs)
      else split_from (cur @ [c]) cs)"

definition split :: "string \<Rightarrow> string list" where
  "split s = split_from [] s"

definition startswith :: "string \<Rightarrow> string \<Rightarrow> bool" where
  "startswith w p = (take (length p) w = p)"

section \<open>The diarization reconciler\<close>

subsection \<open>Word timeline, window search and vote tally\<close>

text \<open>
  \<^verbatim>\<open>word_list\<close> holds one dictionary \<^verbatim>\<open>{'word': ..., 'speaker': ...}\<close> per word of the
  diarization response, the word lowercased.
\<close>

record timeline_word =
  word :: string
  speaker :: int

type_synonym timeline = "timeline_word list"

definition build_word_list :: "word_info list \<Rightarrow> timeline" where
  "build_word_list ws =
     map (\<lambda>word_info.
            \<lparr>word = lower (wi_word word_info),
             speaker = (case speaker_tag word_info of None \<Rightarrow> 1 | Some t \<Rightarrow> t)\<rparr>) ws"

text \<open>
  The inner loop
  \<^verbatim>\<open>
  for wi in range(max(0, word_idx-5), min(len(word_list), word_idx+20)):
      if word_list[wi]['word'].startswith(clean_iw[:3]):
          ...
          break
  \<close>
  runs over the indices of the window in increasing order and stops at the first hit.
  \<open>word_idx\<close> is a \<open>nat\<close>, whose subtraction stops at 0 as \<^verbatim>\<open>max(0, word_idx-5)\<close>
  does; every index of the window is below \<^verbatim>\<open>len(word_list)\<close>.
\<close>

definition window :: "timeline \<Rightarrow> nat \<Rightarrow> nat list" where
  "window word_list word_idx =
     [max 0 (word_idx - 5) ..< min (length word_list) (word_idx + 20)]"

fun find_match :: "timeline \<Rightarrow> string \<Rightarrow> nat list \<Rightarrow> nat option" where
  "find_match word_list p [] = None"
| "find_match word_list p (wi # wis) =
     (if startswith (word (word_list ! wi)) p then Some wi
      else find_match word_list p wis)"

text \<open>
  \<^verbatim>\<open>speaker_votes\<close> is a dictionary from speaker tag to count. A Python dictionary
  iterates in insertion order and an assignment to an existing key keeps its place, so
  it is an association list. \<^verbatim>\<open>max(d, key=d.get)\<close> keeps the first key whose value no
  later key exceeds: the candidate is replaced only by a strictly greater one.
\<close>

type_synonym votes = "(int \<times> int) list"

definition dict_get :: "('k \<times> 'v) list \<Rightarrow> 'k \<Rightarrow> 'v \<Rightarrow> 'v" where
  "dict_get d k dflt = (case map_of d k of None \<Rightarrow> dflt | Some v \<Rightarrow> v)"

fun dict_set :: "('k \<times> 'v) list \<Rightarrow> 'k \<Rightarrow> 'v \<Rightarrow> ('k \<times> 'v) list" where
  "dict_set [] k v = [(k, v)]"
| "dict_set ((k', v') # d) k v =
     (if k' = k then (k, v) # d else (k', v') # dict_set d k v)"

fun max_from :: "('a \<Rightarrow> int) \<Rightarrow> 'a \<Rightarrow> 'a list \<Rightarrow> 'a" where
  "max_from key best [] = best"
| "max_from key best (k # ks) = max_from key (if key best < key k then k else best) ks"

text \<open>The body of \<^verbatim>\<open>for iw in item_words\<close>, on the tally and the cursor.\<close>

definition scan_token :: "timeline \<Rightarrow> string \<Rightarrow> votes \<times> nat \<Rightarrow> votes \<times> nat" where
  "scan_token word_list iw = (\<lambda>(speaker_votes, word_idx).
     let clean_iw = filter isalnum iw in
     if clean_iw = [] then (speaker_votes, word_idx)
     else
       (case find_match word_list (take 3 clean_iw) (window word_list word_idx) of
          None \<Rightarrow> (speaker_votes, word_idx)
        | Some wi \<Rightarrow>
            let s = speaker (word_list ! wi)
            in (dict_set speaker_votes s (dict_get speaker_votes s 0 + 1), wi + 1)))"


text \<open>
  The assignment \<^verbatim>\<open>speaker_votes[s] = speaker_votes.get(s, 0) + 1\<close> of that body, and
  the tags \<open>s\<close> for which the loop \<^verbatim>\<open>for iw in item_words\<close> executes it, in the order
  of the tokens: one entry per token with a hit, the cursor moving as in the loop.
\<close>

definition add_vote :: "int \<Rightarrow> votes \<Rightarrow> votes" where
  "add_vote s speaker_votes = dict_set speaker_votes s (dict_get speaker_votes s 0 + 1)"

fun cast_votes :: "timeline \<Rightarrow> string list \<Rightarrow> nat \<Rightarrow> int list" where
  "cast_votes word_list [] word_idx = []"
| "cast_votes word_list (iw # iws) word_idx =
     (let clean_iw = filter isalnum iw in
      if clean_iw = [] then cast_votes word_list iws word_idx
      else
        (case find_match word_list (take 3 clean_iw) (window word_list word_idx) of
           None \<Rightarrow> cast_votes word_list iws word_idx
         | Some wi \<Rightarrow> speaker (word_list ! wi) # cast_votes word_list iws (wi + 1)))"


subsection \<open>One segment, one tick, the loop\<close>

text \<open>
  The reconciler thread owns the set \<^verbatim>\<open>processed_captions\<close>; its state is that set
  together with the output streams it writes to.
\<close>

record recon = sinks +
  processed_captions :: "int set"

definition speaker_colors :: "string list" where
  "speaker_colors = [''#3498db'', ''#e74c3c'', ''#2ecc71'', ''#f39c12'', ''#9b59b6'']"

definition speaker_names :: "string list" where
  "speaker_names = [''Speaker 1'', ''Speaker 2'', ''Speaker 3'', ''Speaker 4'', ''Speaker 5'']"

text \<open>
  The body of \<^verbatim>\<open>for item in self.transcript_buffer\<close>. The cursor \<open>word_idx\<close> is shared
  by all segments of a tick. \<^verbatim>\<open>if speaker_votes:\<close> is the case of a non-empty tally,
  where \<^verbatim>\<open>max\<close> starts from the first key. Python's \<^verbatim>\<open>%\<close> with a positive modulus
  is \<open>mod\<close> on \<open>int\<close>, so both palette indices are in range.
\<close>

definition align_item :: "timeline \<Rightarrow> caption \<Rightarrow> nat \<times> recon \<Rightarrow> nat \<times> recon" where
  "align_item word_list item = (\<lambda>(word_idx, r).
     if seg_id item \<in> processed_captions r then (word_idx, r)
     else
       let item_words = split (lower (seg_text item));
           (speaker_votes, word_idx') = fold (scan_token word_list) item_words ([], word_idx)
       in (case speaker_votes of
             [] \<Rightarrow> (word_idx', r)
           | (k, c) # rest \<Rightarrow>
               let speaker = max_from (\<lambda>s. dict_get speaker_votes s 0) k (map fst rest);
                   color = speaker_colors ! nat ((speaker - 1) mod int (length speaker_colors));
                   name = speaker_names ! nat ((speaker - 1) mod int (length speaker_names))
               in (word_idx',
                   r\<lparr>emitted := emitted r @ [Speaker_update (seg_id item) speaker color name],
                     printed := printed r @ [Assigned name (seg_id item) (take 40 (seg_text item))],
                     processed_captions := insert (seg_id item) (processed_captions r)\<rparr>)))"

text \<open>
  One iteration of \<^verbatim>\<open>while self.is_running\<close> after the sleep, as a function of what
  it reads: the transcript ledger, the audio ledger and the outcome of the diarization
  request. The iteration is taken as atomic, so it sees one value of each ledger.
  \<^verbatim>\<open>continue\<close> ends the iteration; \<^verbatim>\<open>except Exception\<close> turns a raise of the request
  into a message.
\<close>

definition diarization_tick ::
  "caption list \<Rightarrow> bytes list \<Rightarrow> diar_outcome \<Rightarrow> recon \<Rightarrow> recon" where
  "diarization_tick transcripts audio outcome r =
     (let unprocessed = filter (\<lambda>t. seg_id t \<notin> processed_captions r) transcripts in
      if unprocessed = [] then r
      else
        let audio_data = concat audio in
        if length audio_data < RATE * 2 * 10
        then r\<lparr>printed := printed r @ [Waiting_for_more_audio]\<rparr>
        else
          let r1 = r\<lparr>printed := printed r @ [Running_diarization (length audio_data)],
                     recognize_calls := recognize_calls r @ [audio_data]\<rparr>
          in (case outcome of
                Raises e \<Rightarrow> r1\<lparr>printed := printed r1 @ [Diarization_error e]\<rparr>
              | Returns results \<Rightarrow>
                  if results \<noteq> [] then
                    (case alternatives (last results) of
                       [] \<Rightarrow> r1
                     | alt # _ \<Rightarrow>
                         let r2 = r1\<lparr>printed := printed r1 @ [Got_words (length (words alt))]\<rparr>;
                             word_list = build_word_list (words alt)
                         in snd (fold (align_item word_list) transcripts (0, r2)))
                  else r1\<lparr>printed := printed r1 @ [No_diarization_results]\<rparr>))"

text \<open>
  The loop of \<^verbatim>\<open>run_diarization\<close>, on the sequence of what its iterations observe:
  the value of \<^verbatim>\<open>is_running\<close> at the loop test, then the ledgers and the outcome of
  the request. The loop runs as long as the flag is set; the model follows it through
  any finite number of iterations.
\<close>

record tick_env =
  env_running :: bool
  env_transcripts :: "caption list"
  env_audio :: "bytes list"
  env_outcome :: diar_outcome

fun diarization_loop :: "tick_env list \<Rightarrow> recon \<Rightarrow> recon" where
  "diarization_loop [] r = r"
| "diarization_loop (e # es) r =
     (if env_running e
      then diarization_loop es
             (diarization_tick (env_transcripts e) (env_audio e) (env_outcome e) r)
      else r)"

definition run_diarization :: "tick_env list \<Rightarrow> recon" where
  "run_diarization ticks =
     diarization_loop ticks
       \<lparr>emitted = [], printed = [Diarization_thread_started], recognize_calls = [],
        processed_captions = {}\<rparr>"

section \<open>The session: commands, streaming driver and reconciler threads\<close>

text \<open>
  The fields of \<^verbatim>\<open>StreamingCaptionApp\<close> that the threads share, with the output
  streams. \<^verbatim>\<open>start_streaming\<close> joins the previous threads with a timeout and starts
  new ones whether or not the old ones have ended, so the state counts the live
  \<^verbatim>\<open>stream_audio\<close> threads and keeps one entry per \<^verbatim>\<open>run_diarization\<close> thread:
  where it stands in its loop and its \<^verbatim>\<open>processed_captions\<close>.
\<close>

datatype phase = At_test | Sleeping | Exited

record diar_thread =
  phase :: phase
  processed :: "int set"

record app = sinks +
  is_running :: bool
  audio_buffer :: "bytes list"
  transcript_buffer :: "caption list"
  caption_id :: int
  stream_threads :: nat
  diarization_threads :: "diar_thread list"

definition init_app :: app where
  "init_app =
     \<lparr>emitted = [], printed = [], recognize_calls = [],
      is_running = False, audio_buffer = [], transcript_buffer = [], caption_id = 0,
      stream_threads = 0, diarization_threads = []\<rparr>"

definition start_streaming :: "app \<Rightarrow> app" where
  "start_streaming s =
     (if \<not> is_running s
      then s\<lparr>is_running := True,
             audio_buffer := [],
             transcript_buffer := [],
             caption_id := 0,
             emitted := emitted s @ [Status ''Listening...''],
             stream_threads := stream_threads s + 1,
             diarization_threads :=
               diarization_threads s @ [\<lparr>phase = At_test, processed = {}\<rparr>],
             printed := printed s @ [Diarization_thread_started]\<rparr>
      else s)"

definition stop_streaming :: "app \<Rightarrow> app" where
  "stop_streaming s = s\<lparr>is_running := False, emitted := emitted s @ [Status ''Stopped'']\<rparr>"

text \<open>
  \<^verbatim>\<open>stream_audio\<close>: the body of \<^verbatim>\<open>for response in responses\<close> after the test of
  \<^verbatim>\<open>is_running\<close>, the two statements after the \<^verbatim>\<open>try\<close> block, and the handler of
  \<^verbatim>\<open>except Exception as e\<close>, where \<open>msg\<close> is \<^verbatim>\<open>str(e)\<close>.
\<close>

definition handle_response :: "response \<Rightarrow> rat \<Rightarrow> app \<Rightarrow> app" where
  "handle_response results now s =
     (case results of
        [] \<Rightarrow> s
      | result # _ \<Rightarrow>
          (case alternatives result of
             [] \<Rightarrow> s
           | alt # _ \<Rightarrow>
               if is_final result
               then s\<lparr>caption_id := caption_id s + 1,
                      transcript_buffer := transcript_buffer s @
                        [\<lparr>seg_id = caption_id s, seg_text = transcript alt, seg_time = now\<rparr>],
                      emitted := emitted s @ [Final (caption_id s) (transcript alt)],
                      printed := printed s @ [Final_line (caption_id s) (transcript alt)]\<rparr>
               else s\<lparr>emitted := emitted s @ [Interim (transcript alt)]\<rparr>))"

definition leave_stream_audio :: "app \<Rightarrow> app" where
  "leave_stream_audio s =
     s\<lparr>is_running := False,
       emitted := emitted s @ [Status ''Stopped''],
       stream_threads := stream_threads s - 1\<rparr>"

definition streaming_error :: "string \<Rightarrow> app \<Rightarrow> app" where
  "streaming_error msg s =
     leave_stream_audio
       (s\<lparr>printed := printed s @ [Streaming_error msg],
          emitted := emitted s @ [Error_event msg, Status (''Error: '' @ msg)]\<rparr>)"

text \<open>
  A reconciler thread at its loop test goes to sleep when \<^verbatim>\<open>is_running\<close> holds and
  ends otherwise; a sleeping thread wakes up and runs one tick on the ledgers as they
  are then, whatever the flag has become meanwhile.
\<close>

definition loop_test :: "nat \<Rightarrow> app \<Rightarrow> app" where
  "loop_test k s =
     (if k < length (diarization_threads s) \<and> phase (diarization_threads s ! k) = At_test
      then s\<lparr>diarization_threads :=
               (diarization_threads s)
                 [k := (diarization_threads s ! k)
                         \<lparr>phase := (if is_running s then Sleeping else Exited)\<rparr>]\<rparr>
      else s)"

definition wake_and_tick :: "nat \<Rightarrow> diar_outcome \<Rightarrow> app \<Rightarrow> app" where
  "wake_and_tick k outcome s =
     (if k < length (diarization_threads s) \<and> phase (diarization_threads s ! k) = Sleeping
      then
        let r = diarization_tick (transcript_buffer s) (audio_buffer s) outcome
                  \<lparr>emitted = emitted s, printed = printed s,
                   recognize_calls = recognize_calls s,
                   processed_captions = processed (diarization_threads s ! k)\<rparr>
        in s\<lparr>emitted := emitted r,
             printed := printed r,
             recognize_calls := recognize_calls r,
             diarization_threads :=
               (diarization_threads s)
                 [k := \<lparr>phase = At_test, processed = processed_captions r\<rparr>]\<rparr>
      else s)"

text \<open>
  A run of the application is a sequence of atomic steps, in any order: the two
  commands, and one step of one thread. A step of a thread that does not exist (no live
  streaming thread, no reconciler with that number in that phase) changes nothing.
  \<^item> \<open>Chunk\<close>: the request generator yields one audio chunk, appended to the ledger.
  \<^item> \<open>Response\<close>: a streaming thread receives the next response; it leaves the loop
    when \<^verbatim>\<open>is_running\<close> is off and handles the response otherwise.
  \<^item> \<open>Responses_end\<close>: the response stream of a streaming thread ends.
  \<^item> \<open>Stream_raises\<close>: an exception reaches the handler of \<^verbatim>\<open>stream_audio\<close>.
  \<^item> \<open>Loop_test\<close>, \<open>Tick\<close>: the steps of the reconciler thread with that number.
\<close>

datatype action =
    Start
  | Stop
  | Chunk bytes
  | Response response rat
  | Responses_end
  | Stream_raises string
  | Loop_test nat
  | Tick nat diar_outcome

fun step :: "action \<Rightarrow> app \<Rightarrow> app" where
  "step Start s = start_streaming s"
| "step Stop s = stop_streaming s"
| "step (Chunk content) s =
     (if stream_threads s = 0 then s
      else s\<lparr>audio_buffer := audio_buffer s @ [content]\<rparr>)"
| "step (Response results now) s =
     (if stream_threads s = 0 then s
      else if \<not> is_running s then leave_stream_audio s
      else handle_response results now s)"
| "step Responses_end s =
     (if stream_threads s = 0 then s else leave_stream_audio s)"
| "step (Stream_raises msg) s =
     (if stream_threads s = 0 then s else streaming_error msg s)"
| "step (Loop_test k) s = loop_test k s"
| "step (Tick k outcome) s = wake_and_tick k outcome s"

definition run :: "action list \<Rightarrow> app \<Rightarrow> app" where
  "run acts s = fold step acts s"

section \<open>Reading the event stream\<close>


fun update_ids :: "event list \<Rightarrow> int list" where
  "update_ids [] = []"
| "update_ids (Speaker_update i sp c n # es) = i # update_ids es"
| "update_ids (e # es) = update_ids es"

fun is_transcript_event :: "event \<Rightarrow> bool" where
  "is_transcript_event (Interim t) = True"
| "is_transcript_event (Final i t) = True"
| "is_transcript_event e = False"



text \<open>
  \<open>only_updates_of ids es\<close>: the events \<open>es\<close> are all \<^verbatim>\<open>speaker_update\<close> events, for
  ids in \<open>ids\<close>.
\<close>

definition only_updates_of :: "int set \<Rightarrow> event list \<Rightarrow> bool" where
  "only_updates_of ids es = (\<forall>e\<in>set es. \<exists>i sp c n. e = Speaker_update i sp c n \<and> i \<in> ids)"

text \<open>
  \<open>sole_reconciler k s\<close>: the reconciler thread number \<open>k\<close> exists and every other
  reconciler thread has left its loop.
\<close>

definition sole_reconciler :: "nat \<Rightarrow> app \<Rightarrow> bool" where
  "sole_reconciler k s =
     (k < length (diarization_threads s)
      \<and> (\<forall>j < length (diarization_threads s).
            j \<noteq> k \<longrightarrow> phase (diarization_threads s ! j) = Exited))"

text \<open>The events a run has added to those of the state it started from.\<close>

definition events_since :: "app \<Rightarrow> app \<Rightarrow> event list" where
  "events_since s s' = drop (length (emitted s)) (emitted s')"


section \<open>Gain amplification clips\<close>

lemma int16_range_arith:
  fixes a b :: int
  assumes "0 \<le> a" "a < 256" "0 \<le> b" "b < 256"
  shows "- 32768 \<le> (if a + 256 * b < 32768 then a + 256 * b else a + 256 * b - 65536)
       \<and> (if a + 256 * b < 32768 then a + 256 * b else a + 256 * b - 65536) \<le> 32767"
  using assms by auto

lemma int16_of_bytes_range:
  "- 32768 \<le> int16_of_bytes lo hi \<and> int16_of_bytes lo hi \<le> 32767"
proof -
  have "uint lo < 256" "uint hi < 256"
    using uint_lt2p [of lo] uint_lt2p [of hi] by simp_all
  then show ?thesis
    unfolding int16_of_bytes_def Let_def
    by (intro int16_range_arith) simp_all
qed

lemma unpack_pairs_range: "v \<in> set (unpack_pairs data) \<Longrightarrow> - 32768 \<le> v \<and> v \<le> 32767"
  by (induction data arbitrary: v rule: unpack_pairs.induct)
     (auto simp: int16_of_bytes_range)

lemma length_unpack_pairs: "length (unpack_pairs data) = length data div 2"
  by (induction data rule: unpack_pairs.induct) simp_all

lemma high_byte_of_int16:
  fixes v :: int
  assumes "- 32768 \<le> v" "v \<le> 32767"
  shows "(v div 256) mod 256 = (if 0 \<le> v then v div 256 else v div 256 + 256)"
proof (cases "0 \<le> v")
  case True
  then have "0 \<le> v div 256" "v div 256 < 256" using assms by auto
  then show ?thesis using True by simp
next
  case False
  then have "- 256 \<le> v div 256" "v div 256 < 0" using assms by auto
  then have "0 \<le> v div 256 + 256" "v div 256 + 256 < 256" by auto
  then have "(v div 256 + 256) mod 256 = v div 256 + 256" by (rule mod_pos_pos_trivial)
  then show ?thesis using False by simp
qed

lemma int16_recompose:
  fixes v :: int
  assumes "- 32768 \<le> v" "v \<le> 32767"
  shows "(let u = v mod 256 + 256 * ((v div 256) mod 256)
          in if u < 32768 then u else u - 65536) = v"
proof -
  have parts: "v mod 256 + 256 * (v div 256) = v" by simp
  show ?thesis
  proof (cases "0 \<le> v")
    case True
    then have "v mod 256 + 256 * ((v div 256) mod 256) = v"
      using high_byte_of_int16 [OF assms] parts by simp
    then show ?thesis using assms by (simp add: Let_def)
  next
    case False
    then have "v mod 256 + 256 * ((v div 256) mod 256) = v + 65536"
      using high_byte_of_int16 [OF assms] parts by simp
    then show ?thesis using assms False by (simp add: Let_def)
  qed
qed

lemma unpack_bytes_of_int16:
  assumes "- 32768 \<le> v" "v \<le> 32767"
  shows "unpack_pairs (bytes_of_int16 v @ bs) = v # unpack_pairs bs"
proof -
  have lo: "uint (word_of_int (v mod 256) :: byte) = v mod 256"
    by (simp add: uint_word_of_int take_bit_eq_mod)
  have hi: "uint (word_of_int ((v div 256) mod 256) :: byte) = (v div 256) mod 256"
    by (simp add: uint_word_of_int take_bit_eq_mod)
  have "int16_of_bytes (word_of_int (v mod 256)) (word_of_int ((v div 256) mod 256)) = v"
    unfolding int16_of_bytes_def lo hi by (rule int16_recompose [OF assms])
  then show ?thesis by (simp add: bytes_of_int16_def)
qed

lemma struct_pack_h_total:
  assumes "\<And>v. v \<in> set vs \<Longrightarrow> - 32768 \<le> v \<and> v \<le> 32767"
  shows "\<exists>bs. struct_pack_h vs = Inr bs \<and> length bs = 2 * length vs \<and> unpack_pairs bs = vs"
  using assms
proof (induction vs)
  case Nil
  then show ?case by simp
next
  case (Cons v vs)
  then obtain bs where bs: "struct_pack_h vs = Inr bs" "length bs = 2 * length vs"
      "unpack_pairs bs = vs"
    by auto
  have v: "- 32768 \<le> v" "v \<le> 32767" using Cons.prems by auto
  have "struct_pack_h (v # vs) = Inr (bytes_of_int16 v @ bs)"
    using v bs by simp
  moreover have "length (bytes_of_int16 v @ bs) = 2 * length (v # vs)"
    using bs by (simp add: bytes_of_int16_def)
  moreover have "unpack_pairs (bytes_of_int16 v @ bs) = v # vs"
    using unpack_bytes_of_int16 [OF v] bs by simp
  ultimately show ?case by blast
qed

subsection \<open>Rounding to binary64\<close>

lemma round_half_even_bounds:
  "of_int (round_half_even x) \<le> x + 1 / 2 \<and> x - 1 / 2 \<le> of_int (round_half_even x)"
proof -
  define n where "n = \<lfloor>x\<rfloor>"
  have "of_int n \<le> x" "x < of_int n + 1" unfolding n_def by linarith+
  then show ?thesis
    unfolding round_half_even_def n_def [symmetric] Let_def by auto
qed

lemma round_half_even_of_int: "round_half_even (of_int n) = n"
  by (simp add: round_half_even_def Let_def)

lemma round_half_even_ge:
  assumes "of_int n \<le> x"
  shows "n \<le> round_half_even x"
proof -
  have "n \<le> \<lfloor>x\<rfloor>" using assms by (simp add: le_floor_iff)
  moreover have "\<lfloor>x\<rfloor> \<le> round_half_even x"
    by (simp add: round_half_even_def Let_def)
  ultimately show ?thesis by simp
qed

lemma float_exponent_bounds:
  assumes "x \<noteq> 0"
  shows "2 powi (float_exponent x) \<le> \<bar>x\<bar> \<and> \<bar>x\<bar> < 2 powi (float_exponent x + 1)"
proof -
  obtain p q where pq: "quotient_of \<bar>x\<bar> = (p, q)" by (cases "quotient_of \<bar>x\<bar>")
  have q: "0 < q" using pq quotient_of_denom_pos by blast
  have x: "\<bar>x\<bar> = of_int p / of_int q" using pq quotient_of_div by blast
  have "0 < \<bar>x\<bar>" using assms by simp
  then have p: "0 < p" using x q by (simp add: zero_less_divide_iff)
  define bp where "bp = bitlen p"
  define bq where "bq = bitlen q"
  have bp: "2 ^ nat (bp - 1) \<le> p" "p < 2 ^ nat bp" "1 \<le> bp"
    using bitlen_bounds [OF p] p by (auto simp: bp_def bitlen_alt_def)
  have bq: "2 ^ nat (bq - 1) \<le> q" "q < 2 ^ nat bq" "1 \<le> bq"
    using bitlen_bounds [OF q] q by (auto simp: bq_def bitlen_alt_def)
  have P1: "(2::rat) powi (bp - 1) \<le> of_int p"
  proof -
    have "(of_int (2 ^ nat (bp - 1)) :: rat) \<le> of_int p" using bp(1) by (simp only: of_int_le_iff)
    then show ?thesis using bp(3) by (simp add: power_int_def)
  qed
  have P2: "of_int p < (2::rat) powi bp"
  proof -
    have "(of_int p :: rat) < of_int (2 ^ nat bp)" using bp(2) by (simp only: of_int_less_iff)
    then show ?thesis using bp(3) by (simp add: power_int_def)
  qed
  have Q1: "(2::rat) powi (bq - 1) \<le> of_int q"
  proof -
    have "(of_int (2 ^ nat (bq - 1)) :: rat) \<le> of_int q" using bq(1) by (simp only: of_int_le_iff)
    then show ?thesis using bq(3) by (simp add: power_int_def)
  qed
  have Q2: "of_int q < (2::rat) powi bq"
  proof -
    have "(of_int q :: rat) < of_int (2 ^ nat bq)" using bq(2) by (simp only: of_int_less_iff)
    then show ?thesis using bq(3) by (simp add: power_int_def)
  qed
  have qpos: "(0::rat) < of_int q" using q by simp
  have ppos: "(0::rat) < of_int p" using p by simp
  have pw: "\<And>k. (0::rat) < 2 powi k" by simp
  have lo: "(2::rat) powi (bp - bq - 1) < \<bar>x\<bar>"
  proof -
    have "(2::rat) powi (bp - bq - 1) = 2 powi (bp - 1) / 2 powi bq"
      by (simp add: power_int_diff [symmetric] algebra_simps)
    also have "\<dots> \<le> of_int p / 2 powi bq"
      using P1 pw by (simp add: divide_right_mono)
    also have "\<dots> < of_int p / of_int q"
      using Q2 qpos ppos by (simp add: divide_strict_left_mono)
    finally show ?thesis using x by simp
  qed
  have hi: "\<bar>x\<bar> < (2::rat) powi (bp - bq + 1)"
  proof -
    have "\<bar>x\<bar> = of_int p / of_int q" by (rule x)
    also have "\<dots> < 2 powi bp / of_int q"
      using P2 qpos by (simp add: divide_strict_right_mono)
    also have "\<dots> \<le> 2 powi bp / 2 powi (bq - 1)"
      using Q1 pw [of "bq - 1"] pw [of bp] by (intro frac_le) simp_all
    also have "\<dots> = 2 powi (bp - bq + 1)"
      by (simp add: power_int_diff [symmetric] algebra_simps)
    finally show ?thesis .
  qed
  have fe: "float_exponent x = (if 2 powi (bp - bq) \<le> \<bar>x\<bar> then bp - bq else bp - bq - 1)"
    by (simp add: float_exponent_def pq bp_def bq_def)
  show ?thesis
  proof (cases "2 powi (bp - bq) \<le> \<bar>x\<bar>")
    case True
    then show ?thesis using hi fe by simp
  next
    case False
    then have "\<bar>x\<bar> < 2 powi (bp - bq)" by simp
    then show ?thesis using lo fe False by simp
  qed
qed

lemma power_int_two_mono: "a \<le> b \<Longrightarrow> (2::rat) powi a \<le> 2 powi b"
  by (rule power_int_increasing) simp_all

lemma float_exponent_unique:
  assumes "2 powi e \<le> \<bar>x\<bar>" "\<bar>x\<bar> < 2 powi (e + 1)"
  shows "float_exponent x = e"
proof -
  have "(0::rat) < 2 powi e" by simp
  then have "0 < \<bar>x\<bar>" using assms(1) by linarith
  then have "x \<noteq> 0" by simp
  then have b: "2 powi (float_exponent x) \<le> \<bar>x\<bar>" "\<bar>x\<bar> < 2 powi (float_exponent x + 1)"
    using float_exponent_bounds by blast+
  have "\<not> float_exponent x + 1 \<le> e"
  proof
    assume "float_exponent x + 1 \<le> e"
    then have "(2::rat) powi (float_exponent x + 1) \<le> 2 powi e" by (rule power_int_two_mono)
    then show False using b(2) assms(1) by simp
  qed
  moreover have "\<not> e + 1 \<le> float_exponent x"
  proof
    assume "e + 1 \<le> float_exponent x"
    then have "(2::rat) powi (e + 1) \<le> 2 powi (float_exponent x)" by (rule power_int_two_mono)
    then show False using b(1) assms(2) by simp
  qed
  ultimately show ?thesis by simp
qed

lemma round_double_finite:
  assumes "\<bar>x\<bar> < 2 ^ 1023"
  shows "\<exists>y. round_double x = Finite y \<and> \<bar>y\<bar> \<le> \<bar>x\<bar> + \<bar>x\<bar> / 2 + 1 / 2"
proof (cases "x = 0")
  case True
  then show ?thesis by (simp add: round_double_def)
next
  case False
  define e where "e = float_exponent x"
  define ulp :: rat where "ulp = 2 powi (max e (- 1022) - 52)"
  define m where "m = round_half_even (\<bar>x\<bar> / ulp)"
  have ulp_pos: "0 < ulp" by (simp add: ulp_def)
  have eb: "2 powi e \<le> \<bar>x\<bar>" using float_exponent_bounds [OF False] by (simp add: e_def)
  have "ulp \<le> \<bar>x\<bar> \<or> ulp \<le> 1"
  proof (cases "- 1022 \<le> e")
    case True
    then have "ulp = 2 powi (e - 52)" by (simp add: ulp_def max_def)
    also have "\<dots> \<le> 2 powi e" by (rule power_int_two_mono) simp
    finally show ?thesis using eb by simp
  next
    case False
    then have "ulp = 2 powi (- 1074)" by (simp add: ulp_def max_def)
    also have "\<dots> \<le> 2 powi 0" by (rule power_int_two_mono) simp
    finally show ?thesis by simp
  qed
  then have ulp_le: "ulp \<le> \<bar>x\<bar> + 1" by auto
  have "of_int m \<le> \<bar>x\<bar> / ulp + 1 / 2"
    using round_half_even_bounds [of "\<bar>x\<bar> / ulp"] by (simp add: m_def)
  then have "of_int m * ulp \<le> (\<bar>x\<bar> / ulp + 1 / 2) * ulp"
    using ulp_pos by (simp add: mult_right_mono)
  also have "\<dots> = \<bar>x\<bar> + ulp / 2" using ulp_pos by (simp add: algebra_simps)
  finally have y_le: "of_int m * ulp \<le> \<bar>x\<bar> + ulp / 2" .
  have "0 \<le> \<bar>x\<bar> / ulp" using ulp_pos by simp
  then have "(0::int) \<le> m" unfolding m_def using round_half_even_ge [of 0 "\<bar>x\<bar> / ulp"] by simp
  then have y_ge: "0 \<le> of_int m * ulp" using ulp_pos by simp
  have bound: "of_int m * ulp \<le> \<bar>x\<bar> + \<bar>x\<bar> / 2 + 1 / 2"
    using y_le ulp_le by simp
  have "\<bar>x\<bar> + \<bar>x\<bar> / 2 + 1 / 2 < 2 ^ 1024"
  proof -
    have "\<bar>x\<bar> + \<bar>x\<bar> / 2 + 1 / 2 < 2 ^ 1023 + 2 ^ 1023 / 2 + 1 / 2" using assms by simp
    also have "\<dots> \<le> (2::rat) ^ 1024" by simp
    finally show ?thesis .
  qed
  then have "\<not> 2 ^ 1024 \<le> of_int m * ulp" using bound by simp
  moreover have "round_double x =
      (if 2 ^ 1024 \<le> of_int m * ulp then (if 0 < x then Pos_inf else Neg_inf)
       else Finite (if 0 < x then of_int m * ulp else - (of_int m * ulp)))"
    unfolding round_double_def Let_def m_def ulp_def e_def by (simp only: False if_False)
  ultimately have "round_double x = Finite (if 0 < x then of_int m * ulp else - (of_int m * ulp))"
    by (simp only: if_False)
  then show ?thesis using bound y_ge by auto
qed

lemma round_double_overflow:
  assumes "2 ^ 1024 \<le> \<bar>x\<bar>"
  shows "round_double x = (if 0 < x then Pos_inf else Neg_inf)"
proof -
  have nz: "x \<noteq> 0" using assms by auto
  define e where "e = float_exponent x"
  define ulp :: rat where "ulp = 2 powi (max e (- 1022) - 52)"
  define m where "m = round_half_even (\<bar>x\<bar> / ulp)"
  have eb: "2 powi e \<le> \<bar>x\<bar>" "\<bar>x\<bar> < 2 powi (e + 1)"
    using float_exponent_bounds [OF nz] by (simp_all add: e_def)
  have e: "1024 \<le> e"
  proof (rule ccontr)
    assume "\<not> 1024 \<le> e"
    then have "e + 1 \<le> 1024" by simp
    then have "(2::rat) powi (e + 1) \<le> 2 powi 1024" by (rule power_int_two_mono)
    then show False using eb(2) assms by simp
  qed
  then have ulp: "ulp = 2 powi (e - 52)" by (simp add: ulp_def max_def)
  have ulp_pos: "0 < ulp" by (simp add: ulp_def)
  have split_e: "(2::rat) ^ 52 * ulp = 2 powi e"
    unfolding ulp using power_int_add [of "2::rat" 52 "e - 52"] by simp
  then have "(2::rat) ^ 52 * ulp \<le> \<bar>x\<bar>" using eb(1) by simp
  then have "(2::rat) ^ 52 \<le> \<bar>x\<bar> / ulp" using ulp_pos by (simp add: pos_le_divide_eq)
  then have "of_int (2 ^ 52) \<le> \<bar>x\<bar> / ulp" by simp
  then have "(2::int) ^ 52 \<le> m" unfolding m_def by (rule round_half_even_ge)
  then have "(of_int (2 ^ 52) :: rat) \<le> of_int m" by (simp only: of_int_le_iff)
  then have "(2::rat) ^ 52 * ulp \<le> of_int m * ulp" using ulp_pos by simp
  then have "(2::rat) powi e \<le> of_int m * ulp"
    using split_e by simp
  moreover have "(2::rat) powi 1024 \<le> 2 powi e" using e by (rule power_int_two_mono)
  ultimately have "(2::rat) ^ 1024 \<le> of_int m * ulp" by simp
  moreover have "round_double x =
      (if 2 ^ 1024 \<le> of_int m * ulp then (if 0 < x then Pos_inf else Neg_inf)
       else Finite (if 0 < x then of_int m * ulp else - (of_int m * ulp)))"
    unfolding round_double_def Let_def m_def ulp_def e_def by (simp only: nz if_False)
  ultimately show ?thesis by (simp only: if_True)
qed

lemma round_double_normal:
  assumes "2 powi e \<le> \<bar>x\<bar>" "\<bar>x\<bar> < 2 powi (e + 1)" "- 1022 \<le> e"
    and "round_half_even (\<bar>x\<bar> / 2 powi (e - 52)) = m"
    and "of_int m * 2 powi (e - 52) < (2::rat) ^ 1024"
  shows "round_double x =
     Finite (if 0 < x then of_int m * 2 powi (e - 52) else - (of_int m * 2 powi (e - 52)))"
proof -
  have "(0::rat) < 2 powi e" by simp
  then have "0 < \<bar>x\<bar>" using assms(1) by linarith
  then have nz: "x \<noteq> 0" by simp
  have fe: "float_exponent x = e" using assms(1,2) by (rule float_exponent_unique)
  have mx: "max e (- 1022) = e" using assms(3) by simp
  have "round_double x =
      (if (2::rat) ^ 1024 \<le> of_int m * 2 powi (e - 52) then (if 0 < x then Pos_inf else Neg_inf)
       else Finite (if 0 < x then of_int m * 2 powi (e - 52) else - (of_int m * 2 powi (e - 52))))"
    unfolding round_double_def Let_def fe mx assms(4) by (simp only: nz if_False)
  moreover have "\<not> (2::rat) ^ 1024 \<le> of_int m * 2 powi (e - 52)" using assms(5) by simp
  ultimately show ?thesis by (simp only: if_False)
qed

subsection \<open>The amplification loop\<close>

lemma round_double_not_nan: "round_double x \<noteq> NaN"
  by (simp add: round_double_def Let_def)

lemma py_int_error: "py_int n = Inl e \<Longrightarrow> e = Overflow_error \<or> e = Value_error"
  by (induction n rule: py_int.induct) auto

lemma amplify_samples_Inr:
  "(amplify_samples gain samples = Inr amplified) =
     list_all2 (\<lambda>sample new_sample. \<exists>v. py_int (py_mul sample gain) = Inr v
                  \<and> new_sample = max (- 32768) (min 32767 v)) samples amplified"
proof (induction samples arbitrary: amplified)
  case Nil
  show ?case by auto
next
  case (Cons sample samples)
  show ?case
  proof (cases "py_int (py_mul sample gain)")
    case (Inl e)
    then show ?thesis by (auto simp: list_all2_Cons1)
  next
    case (Inr v)
    show ?thesis
    proof (cases "amplify_samples gain samples")
      case (Inl e)
      then have "\<And>rest. \<not> list_all2 (\<lambda>sample new_sample. \<exists>v. py_int (py_mul sample gain) = Inr v
                  \<and> new_sample = max (- 32768) (min 32767 v)) samples rest"
        using Cons.IH by simp
      then show ?thesis using Inl Inr by (auto simp: list_all2_Cons1)
    next
      case r: (Inr rest)
      have l: "(amplify_samples gain (sample # samples) = Inr amplified) =
          (amplified = max (- 32768) (min 32767 v) # rest)"
        using Inr r by auto
      have "list_all2 (\<lambda>sample new_sample. \<exists>v. py_int (py_mul sample gain) = Inr v
                  \<and> new_sample = max (- 32768) (min 32767 v)) (sample # samples) amplified =
          (\<exists>zs. amplified = max (- 32768) (min 32767 v) # zs \<and> amplify_samples gain samples = Inr zs)"
        unfolding list_all2_Cons1 Cons.IH [symmetric] using Inr by auto
      also have "\<dots> = (amplified = max (- 32768) (min 32767 v) # rest)"
        using r by auto
      finally show ?thesis using l by simp
    qed
  qed
qed

lemma amplify_samples_Inl:
  "amplify_samples gain samples = Inl e \<Longrightarrow>
     \<exists>sample\<in>set samples. py_int (py_mul sample gain) = Inl e"
  by (induction samples) (auto split: sum.splits)

lemma amplify_samples_total:
  "list_all (\<lambda>sample. \<exists>v. py_int (py_mul sample gain) = Inr v) samples \<Longrightarrow>
     \<exists>amplified. amplify_samples gain samples = Inr amplified"
  by (induction samples) auto

lemma amplify_samples_range:
  "amplify_samples gain samples = Inr amplified \<Longrightarrow> v \<in> set amplified \<Longrightarrow>
     - 32768 \<le> v \<and> v \<le> 32767"
  by (induction samples arbitrary: amplified) (auto split: sum.splits)

lemma py_mul_float_finite:
  assumes "\<bar>g\<bar> \<le> 2 ^ 1007" "- 32768 \<le> sample" "sample \<le> 32767"
  shows "\<exists>y. round_double (of_int sample * g) = Finite y"
proof -
  have "\<bar>sample\<bar> \<le> 32768" using assms(2,3) by simp
  then have "\<bar>(of_int sample :: rat)\<bar> \<le> 32768"
    by (metis of_int_abs of_int_le_iff of_int_numeral)
  then have "\<bar>of_int sample * g\<bar> \<le> 32768 * 2 ^ 1007"
    unfolding abs_mult using assms(1) by (intro mult_mono) simp_all
  also have "\<dots> < (2::rat) ^ 1023" by simp
  finally show ?thesis using round_double_finite by blast
qed

lemma product_value:
  "(case gain of
      Py_int g \<Rightarrow> py_int (py_mul sample gain) = Inr (sample * g)
    | Py_float f \<Rightarrow>
        (case f of
           Finite g \<Rightarrow>
             (case round_double (of_int sample * g) of
                Finite y \<Rightarrow>
                  py_int (py_mul sample gain) = Inr (if 0 \<le> y then \<lfloor>y\<rfloor> else \<lceil>y\<rceil>)
              | _ \<Rightarrow> py_int (py_mul sample gain) = Inl Overflow_error)
         | NaN \<Rightarrow> py_int (py_mul sample gain) = Inl Value_error
         | _ \<Rightarrow> py_int (py_mul sample gain) =
                  Inl (if sample = 0 then Value_error else Overflow_error)))"
proof (cases gain)
  case (Py_int g)
  then show ?thesis by simp
next
  case (Py_float f)
  show ?thesis
  proof (cases f)
    case (Finite g)
    then show ?thesis
      using Py_float round_double_not_nan [of "of_int sample * g"]
      by (cases "round_double (of_int sample * g)") simp_all
  qed (simp_all add: Py_float)
qed

lemma struct_unpack_h_even:
  "struct_unpack_h (length audio_data div 2) audio_data =
      (if even (length audio_data) then Inr (unpack_pairs audio_data) else Inl Struct_error)"
proof (cases "even (length audio_data)")
  case True
  then have "length audio_data = 2 * (length audio_data div 2)" by simp
  then show ?thesis using True by (simp add: struct_unpack_h_def)
next
  case False
  then have "length audio_data \<noteq> 2 * (length audio_data div 2)" by presburger
  then show ?thesis using False by (simp add: struct_unpack_h_def)
qed

lemma amplify_samples_length:
  "amplify_samples gain samples = Inr amplified \<Longrightarrow> length amplified = length samples"
  by (induction samples arbitrary: amplified) (auto split: sum.splits)

lemma amplify_audio_packs:
  assumes "even (length audio_data)"
    and "amplify_samples gain (unpack_pairs audio_data) = Inr amplified"
  shows "\<exists>out. amplify_audio audio_data gain = Inr out \<and> length out = length audio_data
        \<and> unpack_pairs out = amplified"
proof -
  have "\<And>v. v \<in> set amplified \<Longrightarrow> - 32768 \<le> v \<and> v \<le> 32767"
    using amplify_samples_range [OF assms(2)] by blast
  from struct_pack_h_total [OF this] obtain out where out:
    "struct_pack_h amplified = Inr out" "length out = 2 * length amplified"
    "unpack_pairs out = amplified"
    by blast
  have "length amplified = length audio_data div 2"
    using amplify_samples_length [OF assms(2)] by (simp add: length_unpack_pairs)
  then have "length out = length audio_data"
    using out(2) assms(1) by simp
  moreover have "amplify_audio audio_data gain = Inr out"
    unfolding amplify_audio_def struct_unpack_h_even using assms out(1) by simp
  ultimately show ?thesis using out(3) by blast
qed

lemma amplify_audio_Inr:
  assumes "amplify_audio audio_data gain = Inr out"
  shows "even (length audio_data)
       \<and> amplify_samples gain (unpack_pairs audio_data) = Inr (unpack_pairs out)
       \<and> length out = length audio_data"
proof -
  have e: "even (length audio_data)"
    using assms unfolding amplify_audio_def struct_unpack_h_even
    by (cases "even (length audio_data)") simp_all
  obtain amplified where a: "amplify_samples gain (unpack_pairs audio_data) = Inr amplified"
    using assms e unfolding amplify_audio_def struct_unpack_h_even
    by (cases "amplify_samples gain (unpack_pairs audio_data)") simp_all
  from amplify_audio_packs [OF e a] obtain out' where
    "amplify_audio audio_data gain = Inr out'" "length out' = length audio_data"
    "unpack_pairs out' = amplified"
    by blast
  then show ?thesis using assms e a by simp
qed

lemma amplify_audio_Inl:
  assumes "amplify_audio audio_data gain = Inl e"
  shows "(e = Struct_error \<and> odd (length audio_data))
          \<or> (even (length audio_data) \<and> (e = Overflow_error \<or> e = Value_error)
              \<and> (\<exists>sample\<in>set (unpack_pairs audio_data). py_int (py_mul sample gain) = Inl e))"
proof (cases "even (length audio_data)")
  case False
  then show ?thesis
    using assms unfolding amplify_audio_def struct_unpack_h_even by simp
next
  case True
  show ?thesis
  proof (cases "amplify_samples gain (unpack_pairs audio_data)")
    case (Inl e')
    then have "e' = e"
      using assms True unfolding amplify_audio_def struct_unpack_h_even by simp
    then obtain sample where s: "sample \<in> set (unpack_pairs audio_data)"
        "py_int (py_mul sample gain) = Inl e"
      using amplify_samples_Inl Inl by blast
    then have "e = Overflow_error \<or> e = Value_error" using py_int_error by blast
    then show ?thesis using True s by blast
  next
    case (Inr amplified)
    from amplify_audio_packs [OF True this] show ?thesis using assms by auto
  qed
qed

lemma clamp_cases:
  "max (- 32768) (min 32767 v) =
     (if v < - 32768 then - 32768 else if 32767 < v then 32767 else (v::int))"
  by simp

lemma amplify_samples_clamped:
  assumes "amplify_samples gain samples = Inr amplified"
  shows "list_all2
               (\<lambda>sample new_sample.
                  \<exists>v. py_int (py_mul sample gain) = Inr v
                    \<and> new_sample = (if v < - 32768 then - 32768 else if 32767 < v then 32767 else v)
                    \<and> - 32768 \<le> new_sample \<and> new_sample \<le> 32767)
               samples amplified"
  using assms
proof (induction samples arbitrary: amplified)
  case Nil
  then show ?case by simp
next
  case (Cons sample samples)
  obtain v where v: "py_int (py_mul sample gain) = Inr v"
    using Cons.prems by (cases "py_int (py_mul sample gain)") simp_all
  obtain rest where rest: "amplify_samples gain samples = Inr rest"
    using Cons.prems v by (cases "amplify_samples gain samples") simp_all
  have a: "amplified = max (- 32768) (min 32767 v) # rest"
    using Cons.prems v rest by simp
  have "- 32768 \<le> max (- 32768) (min 32767 v)" "max (- 32768) (min 32767 v) \<le> 32767"
    by simp_all
  then show ?case
    unfolding a list_all2_Cons using v Cons.IH [OF rest] clamp_cases [of v] by blast
qed

lemma amplify_samples_converts:
  assumes "amplify_samples gain samples = Inr amplified"
  shows "list_all (\<lambda>sample. \<exists>v. py_int (py_mul sample gain) = Inr v) samples"
  using assms
  by (induction samples arbitrary: amplified) (auto split: sum.splits)

text \<open>
  Claim C4, as amended. \<^verbatim>\<open>amplify_audio\<close> returns exactly when the buffer holds an
  even number of bytes and the product of every sample with the gain converts to an
  integer. It then returns a buffer of the same length, and each output sample is the
  converted product \<open>v\<close> of the input sample at its place where \<open>v\<close> lies in
  \<open>[-32768, 32767]\<close>, and the nearer bound otherwise: out-of-range values saturate, they
  never wrap, and \<^verbatim>\<open>struct.pack\<close> never raises. Otherwise the function raises:
  \<^verbatim>\<open>struct.error\<close> for an odd number of bytes, else the \<^verbatim>\<open>OverflowError\<close> or
  \<^verbatim>\<open>ValueError\<close> of a sample whose product does not convert. The converted product
  is the exact product for an \<^verbatim>\<open>int\<close> gain; for a finite float gain it is the product
  rounded to binary64 and then truncated towards zero, and the conversion raises
  \<^verbatim>\<open>OverflowError\<close> when the rounded product is an infinity, which does not happen
  for a gain of magnitude at most \<open>2\<^sup>1\<^sup>0\<^sup>0\<^sup>7\<close>; for a NaN gain it raises
  \<^verbatim>\<open>ValueError\<close>, and for an infinite gain \<^verbatim>\<open>OverflowError\<close>, or \<^verbatim>\<open>ValueError\<close>
  when the sample is 0.
\<close>

theorem amplify_audio_clips:
  "((\<exists>out. amplify_audio audio_data gain = Inr out) =
      (even (length audio_data)
       \<and> list_all (\<lambda>sample. \<exists>v. py_int (py_mul sample gain) = Inr v) (unpack_pairs audio_data)))
   \<and> (\<forall>out. amplify_audio audio_data gain = Inr out \<longrightarrow>
          length out = length audio_data
          \<and> list_all2
               (\<lambda>sample new_sample.
                  \<exists>v. py_int (py_mul sample gain) = Inr v
                    \<and> new_sample = (if v < - 32768 then - 32768 else if 32767 < v then 32767 else v)
                    \<and> - 32768 \<le> new_sample \<and> new_sample \<le> 32767)
               (unpack_pairs audio_data) (unpack_pairs out))
   \<and> (\<forall>e. amplify_audio audio_data gain = Inl e \<longrightarrow>
          (e = Struct_error \<and> odd (length audio_data))
          \<or> (even (length audio_data) \<and> (e = Overflow_error \<or> e = Value_error)
              \<and> (\<exists>sample\<in>set (unpack_pairs audio_data). py_int (py_mul sample gain) = Inl e)))
   \<and> (\<forall>sample\<in>set (unpack_pairs audio_data).
         - 32768 \<le> sample \<and> sample \<le> 32767
         \<and> (case gain of
               Py_int g \<Rightarrow> py_int (py_mul sample gain) = Inr (sample * g)
             | Py_float f \<Rightarrow>
                 (case f of
                    Finite g \<Rightarrow>
                      (case round_double (of_int sample * g) of
                         Finite y \<Rightarrow>
                           py_int (py_mul sample gain) =
                             Inr (if 0 \<le> y then \<lfloor>y\<rfloor> else \<lceil>y\<rceil>)
                       | _ \<Rightarrow> py_int (py_mul sample gain) = Inl Overflow_error)
                  | NaN \<Rightarrow> py_int (py_mul sample gain) = Inl Value_error
                  | _ \<Rightarrow> py_int (py_mul sample gain) =
                           Inl (if sample = 0 then Value_error else Overflow_error)))
         \<and> (\<forall>g. gain = Py_float (Finite g) \<and> \<bar>g\<bar> \<le> 2 ^ 1007 \<longrightarrow>
                (\<exists>y. round_double (of_int sample * g) = Finite y)))"
proof (intro conjI)
  show "(\<exists>out. amplify_audio audio_data gain = Inr out) =
      (even (length audio_data)
       \<and> list_all (\<lambda>sample. \<exists>v. py_int (py_mul sample gain) = Inr v) (unpack_pairs audio_data))"
  proof
    assume "\<exists>out. amplify_audio audio_data gain = Inr out"
    then obtain out where "amplify_audio audio_data gain = Inr out" by blast
    from amplify_audio_Inr [OF this]
    show "even (length audio_data)
       \<and> list_all (\<lambda>sample. \<exists>v. py_int (py_mul sample gain) = Inr v) (unpack_pairs audio_data)"
      using amplify_samples_converts by blast
  next
    assume h: "even (length audio_data)
       \<and> list_all (\<lambda>sample. \<exists>v. py_int (py_mul sample gain) = Inr v) (unpack_pairs audio_data)"
    then obtain amplified where "amplify_samples gain (unpack_pairs audio_data) = Inr amplified"
      using amplify_samples_total [of gain "unpack_pairs audio_data"] by blast
    from amplify_audio_packs [OF _ this] h
    show "\<exists>out. amplify_audio audio_data gain = Inr out" by blast
  qed
next
  show "\<forall>out. amplify_audio audio_data gain = Inr out \<longrightarrow>
          length out = length audio_data
          \<and> list_all2
               (\<lambda>sample new_sample.
                  \<exists>v. py_int (py_mul sample gain) = Inr v
                    \<and> new_sample = (if v < - 32768 then - 32768 else if 32767 < v then 32767 else v)
                    \<and> - 32768 \<le> new_sample \<and> new_sample \<le> 32767)
               (unpack_pairs audio_data) (unpack_pairs out)"
  proof (intro allI impI)
    fix out assume "amplify_audio audio_data gain = Inr out"
    from amplify_audio_Inr [OF this]
    have "amplify_samples gain (unpack_pairs audio_data) = Inr (unpack_pairs out)"
      and l: "length out = length audio_data"
      by simp_all
    from amplify_samples_clamped [OF this(1)] l
    show "length out = length audio_data
          \<and> list_all2
               (\<lambda>sample new_sample.
                  \<exists>v. py_int (py_mul sample gain) = Inr v
                    \<and> new_sample = (if v < - 32768 then - 32768 else if 32767 < v then 32767 else v)
                    \<and> - 32768 \<le> new_sample \<and> new_sample \<le> 32767)
               (unpack_pairs audio_data) (unpack_pairs out)"
      by (rule conjI [rotated])
  qed
next
  show "\<forall>e. amplify_audio audio_data gain = Inl e \<longrightarrow>
          (e = Struct_error \<and> odd (length audio_data))
          \<or> (even (length audio_data) \<and> (e = Overflow_error \<or> e = Value_error)
              \<and> (\<exists>sample\<in>set (unpack_pairs audio_data). py_int (py_mul sample gain) = Inl e))"
    using amplify_audio_Inl by blast
next
  show "\<forall>sample\<in>set (unpack_pairs audio_data).
         - 32768 \<le> sample \<and> sample \<le> 32767
         \<and> (case gain of
               Py_int g \<Rightarrow> py_int (py_mul sample gain) = Inr (sample * g)
             | Py_float f \<Rightarrow>
                 (case f of
                    Finite g \<Rightarrow>
                      (case round_double (of_int sample * g) of
                         Finite y \<Rightarrow>
                           py_int (py_mul sample gain) =
                             Inr (if 0 \<le> y then \<lfloor>y\<rfloor> else \<lceil>y\<rceil>)
                       | _ \<Rightarrow> py_int (py_mul sample gain) = Inl Overflow_error)
                  | NaN \<Rightarrow> py_int (py_mul sample gain) = Inl Value_error
                  | _ \<Rightarrow> py_int (py_mul sample gain) =
                           Inl (if sample = 0 then Value_error else Overflow_error)))
         \<and> (\<forall>g. gain = Py_float (Finite g) \<and> \<bar>g\<bar> \<le> 2 ^ 1007 \<longrightarrow>
                (\<exists>y. round_double (of_int sample * g) = Finite y))"
  proof
    fix sample assume "sample \<in> set (unpack_pairs audio_data)"
    then have r: "- 32768 \<le> sample \<and> sample \<le> 32767"
      by (rule unpack_pairs_range)
    then have f: "\<forall>g. gain = Py_float (Finite g) \<and> \<bar>g\<bar> \<le> 2 ^ 1007 \<longrightarrow>
                (\<exists>y. round_double (of_int sample * g) = Finite y)"
      using py_mul_float_finite by blast
    from r product_value [where sample = sample and gain = gain] f
    show "- 32768 \<le> sample \<and> sample \<le> 32767
         \<and> (case gain of
               Py_int g \<Rightarrow> py_int (py_mul sample gain) = Inr (sample * g)
             | Py_float f \<Rightarrow>
                 (case f of
                    Finite g \<Rightarrow>
                      (case round_double (of_int sample * g) of
                         Finite y \<Rightarrow>
                           py_int (py_mul sample gain) =
                             Inr (if 0 \<le> y then \<lfloor>y\<rfloor> else \<lceil>y\<rceil>)
                       | _ \<Rightarrow> py_int (py_mul sample gain) = Inl Overflow_error)
                  | NaN \<Rightarrow> py_int (py_mul sample gain) = Inl Value_error
                  | _ \<Rightarrow> py_int (py_mul sample gain) =
                           Inl (if sample = 0 then Value_error else Overflow_error)))
         \<and> (\<forall>g. gain = Py_float (Finite g) \<and> \<bar>g\<bar> \<le> 2 ^ 1007 \<longrightarrow>
                (\<exists>y. round_double (of_int sample * g) = Finite y))"
      by - (erule conjE, intro conjI, assumption+)
  qed
qed

text \<open>
  With the gain \<^verbatim>\<open>1.7\<close>, which is the binary64 value
  \<open>7656119366529843 / 4503599627370496\<close>, just below \<open>17 / 10\<close>: the sample 10 gives 17
  (the exact product lies below 17 and rounds to the float 17.0), the samples -20000
  and 20000 saturate, and -1 gives -1 (truncation towards zero of -1.7).
\<close>

lemma product_ten:
  "float_mul_int 10 (Finite (7656119366529843 / 4503599627370496)) = Finite (17)"
proof -
  define x :: rat where "x = of_int 10 * (7656119366529843 / 4503599627370496)"
  have a: "2 powi 4 \<le> \<bar>x\<bar>" "\<bar>x\<bar> < 2 powi (4 + 1)"
    unfolding x_def by simp_all
  have r: "round_half_even (\<bar>x\<bar> / 2 powi (4 - 52)) = 4785074604081152"
    unfolding x_def by code_simp
  have "round_double x =
     Finite (if 0 < x then of_int 4785074604081152 * 2 powi (4 - 52)
             else - (of_int 4785074604081152 * 2 powi (4 - 52)))"
    using a _ r by (rule round_double_normal) simp_all
  moreover have "0 < x" unfolding x_def by simp
  moreover have "of_int 4785074604081152 * 2 powi (4 - 52) = (17 :: rat)" by simp
  ultimately have "round_double x = Finite (17)" by (simp only: if_False if_True)
  then show ?thesis unfolding float_mul_int.simps x_def .
qed

lemma product_minus_20000:
  "float_mul_int (- 20000) (Finite (7656119366529843 / 4503599627370496)) = Finite (- 34000)"
proof -
  define x :: rat where "x = of_int (- 20000) * (7656119366529843 / 4503599627370496)"
  have a: "2 powi 15 \<le> \<bar>x\<bar>" "\<bar>x\<bar> < 2 powi (15 + 1)"
    unfolding x_def by simp_all
  have r: "round_half_even (\<bar>x\<bar> / 2 powi (15 - 52)) = 4672924418048000"
    unfolding x_def by code_simp
  have "round_double x =
     Finite (if 0 < x then of_int 4672924418048000 * 2 powi (15 - 52)
             else - (of_int 4672924418048000 * 2 powi (15 - 52)))"
    using a _ r by (rule round_double_normal) simp_all
  moreover have "\<not> 0 < x" unfolding x_def by simp
  moreover have "of_int 4672924418048000 * 2 powi (15 - 52) = (34000 :: rat)" by simp
  ultimately have "round_double x = Finite (- 34000)" by (simp only: if_False if_True)
  then show ?thesis unfolding float_mul_int.simps x_def .
qed

lemma product_plus_20000:
  "float_mul_int 20000 (Finite (7656119366529843 / 4503599627370496)) = Finite (34000)"
proof -
  define x :: rat where "x = of_int 20000 * (7656119366529843 / 4503599627370496)"
  have a: "2 powi 15 \<le> \<bar>x\<bar>" "\<bar>x\<bar> < 2 powi (15 + 1)"
    unfolding x_def by simp_all
  have r: "round_half_even (\<bar>x\<bar> / 2 powi (15 - 52)) = 4672924418048000"
    unfolding x_def by code_simp
  have "round_double x =
     Finite (if 0 < x then of_int 4672924418048000 * 2 powi (15 - 52)
             else - (of_int 4672924418048000 * 2 powi (15 - 52)))"
    using a _ r by (rule round_double_normal) simp_all
  moreover have "0 < x" unfolding x_def by simp
  moreover have "of_int 4672924418048000 * 2 powi (15 - 52) = (34000 :: rat)" by simp
  ultimately have "round_double x = Finite (34000)" by (simp only: if_False if_True)
  then show ?thesis unfolding float_mul_int.simps x_def .
qed

lemma product_minus_one:
  "float_mul_int (- 1) (Finite (7656119366529843 / 4503599627370496)) = Finite (- (7656119366529843 / 4503599627370496))"
proof -
  define x :: rat where "x = of_int (- 1) * (7656119366529843 / 4503599627370496)"
  have a: "2 powi 0 \<le> \<bar>x\<bar>" "\<bar>x\<bar> < 2 powi (0 + 1)"
    unfolding x_def by simp_all
  have r: "round_half_even (\<bar>x\<bar> / 2 powi (0 - 52)) = 7656119366529843"
    unfolding x_def by code_simp
  have "round_double x =
     Finite (if 0 < x then of_int 7656119366529843 * 2 powi (0 - 52)
             else - (of_int 7656119366529843 * 2 powi (0 - 52)))"
    using a _ r by (rule round_double_normal) simp_all
  moreover have "\<not> 0 < x" unfolding x_def by simp
  moreover have "of_int 7656119366529843 * 2 powi (0 - 52) = (7656119366529843 / 4503599627370496 :: rat)" by simp
  ultimately have "round_double x = Finite (- (7656119366529843 / 4503599627370496))" by (simp only: if_False if_True)
  then show ?thesis unfolding float_mul_int.simps x_def .
qed

theorem amplify_audio_clips_witness:
  "unpack_pairs [0x0A, 0x00, 0xE0, 0xB1, 0x20, 0x4E, 0xFF, 0xFF :: byte] = [10, - 20000, 20000, - 1]
   \<and> (\<exists>out. amplify_audio [0x0A, 0x00, 0xE0, 0xB1, 0x20, 0x4E, 0xFF, 0xFF]
               (Py_float (Finite (7656119366529843 / 4503599627370496))) = Inr out
          \<and> length out = 8
          \<and> unpack_pairs out = [17, - 32768, 32767, - 1])"
proof -
  define data where "data = [0x0A, 0x00, 0xE0, 0xB1, 0x20, 0x4E, 0xFF, 0xFF :: byte]"
  define gain where "gain = Py_float (Finite (7656119366529843 / 4503599627370496))"
  have u: "unpack_pairs data = [10, - 20000, 20000, - 1]"
    by (simp add: data_def int16_of_bytes_def)
  have p: "py_int (py_mul 10 gain) = Inr 17"
      "py_int (py_mul (- 20000) gain) = Inr (- 34000)"
      "py_int (py_mul 20000 gain) = Inr 34000"
    unfolding gain_def py_mul.simps product_ten product_minus_20000 product_plus_20000
    by simp_all
  have p4: "py_int (py_mul (- 1) gain) = Inr (- 1)"
    unfolding gain_def py_mul.simps product_minus_one by code_simp
  have c: "even (length data)
       \<and> list_all (\<lambda>sample. \<exists>v. py_int (py_mul sample gain) = Inr v) (unpack_pairs data)"
    unfolding u using p p4 by (simp add: data_def)
  from amplify_audio_clips [of data gain] c obtain out where
    out: "amplify_audio data gain = Inr out"
    by blast
  from amplify_audio_clips [of data gain] out have l: "length out = length data"
    and a: "list_all2
               (\<lambda>sample new_sample.
                  \<exists>v. py_int (py_mul sample gain) = Inr v
                    \<and> new_sample = (if v < - 32768 then - 32768 else if 32767 < v then 32767 else v)
                    \<and> - 32768 \<le> new_sample \<and> new_sample \<le> 32767)
               (unpack_pairs data) (unpack_pairs out)"
    by blast+
  have "unpack_pairs out = [17, - 32768, 32767, - 1]"
    using a unfolding u by (auto simp: list_all2_Cons1 p p4)
  then show ?thesis using u out l unfolding data_def gain_def by simp
qed

text \<open>
  The claim as written (for every gain, an out-of-range value is clipped) fails for a
  gain whose product with a sample is not a finite float: with the sample 32767 and the
  gain \<^verbatim>\<open>1e305\<close> (a finite binary64 value) the product is an infinity, and the
  function raises \<^verbatim>\<open>OverflowError\<close> where the claim has it return 32767; likewise for
  the gain \<^verbatim>\<open>inf\<close>, and for \<^verbatim>\<open>nan\<close> it raises \<^verbatim>\<open>ValueError\<close>.
\<close>

theorem gain_overflow_counterexample:
  "unpack_pairs [0xFF, 0x7F :: byte] = [32767]
   \<and> amplify_audio [0xFF, 0x7F]
        (Py_float (Finite 99999999999999993925355250553646218600402872201173249531907715713232045630132339028433092574405077484368561180561621725787171937426360305302357988408668827749873014416820110410677102531624409058437198025485515990766396825508218326595491122696079498053460349186625724064076043808459598620749043481381437440))
       = Inl Overflow_error
   \<and> amplify_audio [0xFF, 0x7F] (Py_float Pos_inf) = Inl Overflow_error
   \<and> amplify_audio [0xFF, 0x7F] (Py_float NaN) = Inl Value_error"
proof -
  have u: "unpack_pairs [0xFF, 0x7F :: byte] = [32767]"
    by (simp add: int16_of_bytes_def)
  have "round_double (of_int 32767 * 99999999999999993925355250553646218600402872201173249531907715713232045630132339028433092574405077484368561180561621725787171937426360305302357988408668827749873014416820110410677102531624409058437198025485515990766396825508218326595491122696079498053460349186625724064076043808459598620749043481381437440) = Pos_inf"
    by (subst round_double_overflow) simp_all
  then have "py_int (py_mul 32767 (Py_float (Finite 99999999999999993925355250553646218600402872201173249531907715713232045630132339028433092574405077484368561180561621725787171937426360305302357988408668827749873014416820110410677102531624409058437198025485515990766396825508218326595491122696079498053460349186625724064076043808459598620749043481381437440))) = Inl Overflow_error"
    by (simp only: py_mul.simps float_mul_int.simps py_int.simps)
  then show ?thesis
    using u by (simp add: amplify_audio_def struct_unpack_h_def)
qed


section \<open>The vote tally\<close>

lemma map_fst_dict_set:
  "map fst (dict_set d k v) = (if k \<in> fst ` set d then map fst d else map fst d @ [k])"
  by (induction d k v rule: dict_set.induct) auto

lemma distinct_dict_set:
  "distinct (map fst d) \<Longrightarrow> distinct (map fst (dict_set d k v))"
  by (auto simp: map_fst_dict_set)

lemma distinct_scan_token:
  "distinct (map fst (fst st)) \<Longrightarrow> distinct (map fst (fst (scan_token word_list iw st)))"
  by (cases st) (auto simp: scan_token_def Let_def distinct_dict_set split: option.splits)

lemma distinct_fold_scan_token:
  "distinct (map fst (fst st)) \<Longrightarrow>
     distinct (map fst (fst (fold (scan_token word_list) iws st)))"
  by (induction iws arbitrary: st) (simp_all add: distinct_scan_token)

lemma map_of_dict_set: "map_of (dict_set d k v) = (map_of d)(k \<mapsto> v)"
  by (induction d k v rule: dict_set.induct) auto

lemma dict_get_map_of: "dict_get d k 0 = (case map_of d k of None \<Rightarrow> 0 | Some c \<Rightarrow> c)"
  by (simp add: dict_get_def)

lemma scan_token_cast:
  "scan_token word_list iw (v, word_idx) =
     (let clean_iw = filter isalnum iw in
      if clean_iw = [] then (v, word_idx)
      else case find_match word_list (take 3 clean_iw) (window word_list word_idx) of
             None \<Rightarrow> (v, word_idx)
           | Some wi \<Rightarrow> (add_vote (speaker (word_list ! wi)) v, wi + 1))"
  by (simp add: scan_token_def add_vote_def Let_def split: option.splits)

lemma fold_scan_token_cast:
  "fst (fold (scan_token word_list) iws (v, word_idx)) =
     fold add_vote (cast_votes word_list iws word_idx) v"
proof (induction iws arbitrary: v word_idx)
  case Nil
  show ?case by simp
next
  case (Cons iw iws)
  show ?case
  proof (cases "filter isalnum iw = []")
    case True
    then have "scan_token word_list iw (v, word_idx) = (v, word_idx)"
      by (simp add: scan_token_cast)
    then show ?thesis using True Cons.IH [of v word_idx] by simp
  next
    case False
    show ?thesis
    proof (cases "find_match word_list (take 3 (filter isalnum iw)) (window word_list word_idx)")
      case None
      then have "scan_token word_list iw (v, word_idx) = (v, word_idx)"
        using False by (simp add: scan_token_cast)
      then show ?thesis using False None Cons.IH [of v word_idx] by simp
    next
      case (Some wi)
      then have "scan_token word_list iw (v, word_idx) =
          (add_vote (speaker (word_list ! wi)) v, wi + 1)"
        using False by (simp add: scan_token_cast)
      then show ?thesis
        using False Some Cons.IH [of "add_vote (speaker (word_list ! wi)) v" "wi + 1"] by simp
    qed
  qed
qed

lemma map_of_add_vote:
  "map_of (add_vote s v) =
     (map_of v)(s \<mapsto> (case map_of v s of None \<Rightarrow> 1 | Some c \<Rightarrow> c + 1))"
  by (simp add: add_vote_def map_of_dict_set dict_get_def split: option.splits)

lemma map_of_tally:
  "map_of (fold add_vote hs v) k =
     (case map_of v k of
        None \<Rightarrow> (if count_list hs k = 0 then None else Some (int (count_list hs k)))
      | Some c \<Rightarrow> Some (c + int (count_list hs k)))"
proof (induction hs arbitrary: v)
  case Nil
  show ?case by (simp split: option.splits)
next
  case (Cons h hs)
  have "map_of (fold add_vote (h # hs) v) k = map_of (fold add_vote hs (add_vote h v)) k"
    by simp
  also have "\<dots> =
     (case map_of (add_vote h v) k of
        None \<Rightarrow> (if count_list hs k = 0 then None else Some (int (count_list hs k)))
      | Some c \<Rightarrow> Some (c + int (count_list hs k)))"
    by (rule Cons.IH)
  also have "\<dots> =
     (case map_of v k of
        None \<Rightarrow> (if count_list (h # hs) k = 0 then None else Some (int (count_list (h # hs) k)))
      | Some c \<Rightarrow> Some (c + int (count_list (h # hs) k)))"
    by (simp add: map_of_add_vote split: option.splits)
  finally show ?case .
qed

lemma map_fst_add_vote:
  "map fst (add_vote s v) = (if s \<in> fst ` set v then map fst v else map fst v @ [s])"
  by (simp add: add_vote_def map_fst_dict_set)

lemma remdups_snoc: "remdups (xs @ [x]) = filter (\<lambda>y. y \<noteq> x) (remdups xs) @ [x]"
  by (induction xs) auto

lemma first_seen_Cons:
  "rev (remdups (rev (x # xs))) = x # filter (\<lambda>y. y \<noteq> x) (rev (remdups (rev xs)))"
  by (simp add: remdups_snoc rev_filter)

lemma keys_tally:
  "map fst (fold add_vote hs v) =
     map fst v @ filter (\<lambda>k. k \<notin> fst ` set v) (rev (remdups (rev hs)))"
proof (induction hs arbitrary: v)
  case Nil
  show ?case by simp
next
  case (Cons h hs)
  define v' where "v' = add_vote h v"
  define seen where "seen = rev (remdups (rev hs))"
  have keys: "map fst v' = (if h \<in> fst ` set v then map fst v else map fst v @ [h])"
    unfolding v'_def by (rule map_fst_add_vote)
  have set': "fst ` set v' = insert h (fst ` set v)"
  proof -
    have "set (map fst v') = insert h (set (map fst v))"
      unfolding keys by auto
    then show ?thesis by simp
  qed
  have "map fst (fold add_vote (h # hs) v) =
      map fst v' @ filter (\<lambda>k. k \<notin> fst ` set v') seen"
    using Cons.IH [of v'] by (simp add: v'_def seen_def)
  also have "\<dots> = map fst v @ filter (\<lambda>k. k \<notin> fst ` set v) (h # filter (\<lambda>y. y \<noteq> h) seen)"
  proof (cases "h \<in> fst ` set v")
    case True
    have "filter (\<lambda>k. k \<notin> insert h (fst ` set v)) seen =
        filter (\<lambda>k. k \<notin> fst ` set v) (filter (\<lambda>y. y \<noteq> h) seen)"
      by (auto simp: filter_filter intro!: filter_cong)
    then show ?thesis using True keys set' by simp
  next
    case False
    have "filter (\<lambda>k. k \<notin> insert h (fst ` set v)) seen =
        filter (\<lambda>k. k \<notin> fst ` set v) (filter (\<lambda>y. y \<noteq> h) seen)"
      by (auto simp: filter_filter intro!: filter_cong)
    then show ?thesis using False keys set' by simp
  qed
  also have "\<dots> = map fst v @ filter (\<lambda>k. k \<notin> fst ` set v) (rev (remdups (rev (h # hs))))"
    unfolding seen_def by (simp only: first_seen_Cons)
  finally show ?case .
qed

lemma count_of_tally:
  "dict_get (fold add_vote hs []) k 0 = int (count_list hs k)"
  by (simp add: dict_get_map_of map_of_tally)


section \<open>Alignment of a segment with the word timeline\<close>

lemma find_match_filter:
  "find_match word_list p wis =
     (case filter (\<lambda>wi. startswith (word (word_list ! wi)) p) wis of
        [] \<Rightarrow> None
      | wi # _ \<Rightarrow> Some wi)"
  by (induction wis) simp_all

lemma find_match_Some:
  "find_match word_list p wis = Some wi \<Longrightarrow>
     wi \<in> set wis \<and> startswith (word (word_list ! wi)) p"
  by (induction wis) (auto split: if_splits)

lemma window_bounds:
  "wi \<in> set (window word_list word_idx) \<Longrightarrow>
     word_idx \<le> wi + 5 \<and> wi < length word_list \<and> wi < word_idx + 20"
  by (auto simp: window_def)

lemma startswith_long:
  "3 \<le> length clean_iw \<Longrightarrow> startswith w (take 3 clean_iw) = (take 3 w = take 3 clean_iw)"
  by (simp add: startswith_def min_def)

lemma startswith_short:
  "length clean_iw < 3 \<Longrightarrow> startswith w (take 3 clean_iw) = (take (length clean_iw) w = clean_iw)"
  by (simp add: startswith_def min_def)

text \<open>
  Claim C5, as amended. A token is cleaned of its non-alphanumeric characters and
  skipped when nothing is left. Otherwise the window runs from 5 positions behind the
  cursor (not below 0) up to, and not including, 20 positions ahead of it (not beyond
  the length of the timeline). A timeline word is a hit when it starts with the first
  three characters of the cleaned token: for a token of three or more characters that
  is equality of the three-character prefixes, for a shorter token the timeline word
  only has to start with the whole token. Without a hit the tally and the cursor stay
  as they are. Otherwise the first hit of the window gets the vote: the count of its
  speaker tag becomes 1 if the tag had no entry and one more than before if it had,
  every other entry keeps its count, the keys keep their order with a new tag added at
  the end, and the cursor moves just after the hit. The tokens of a segment are the
  whitespace-separated words of its lowercased text.
\<close>

theorem scan_token_window:
  "(let clean_iw = filter isalnum iw;
        hits = filter (\<lambda>wi. startswith (word (word_list ! wi)) (take 3 clean_iw))
                 [word_idx - 5 ..< min (length word_list) (word_idx + 20)]
    in if clean_iw = [] \<or> hits = []
       then scan_token word_list iw (speaker_votes, word_idx) = (speaker_votes, word_idx)
       else snd (scan_token word_list iw (speaker_votes, word_idx)) = hd hits + 1
          \<and> map_of (fst (scan_token word_list iw (speaker_votes, word_idx))) =
              (map_of speaker_votes)
                (speaker (word_list ! hd hits) \<mapsto>
                   (case map_of speaker_votes (speaker (word_list ! hd hits)) of
                      None \<Rightarrow> 1 | Some c \<Rightarrow> c + 1))
          \<and> map fst (fst (scan_token word_list iw (speaker_votes, word_idx))) =
              (if speaker (word_list ! hd hits) \<in> fst ` set speaker_votes
               then map fst speaker_votes
               else map fst speaker_votes @ [speaker (word_list ! hd hits)]))
   \<and> (\<forall>w clean_iw. startswith w (take 3 clean_iw) =
          (if 3 \<le> length clean_iw then take 3 w = take 3 clean_iw
           else take (length clean_iw) w = clean_iw))
   \<and> (\<forall>item r. fst (align_item word_list item (word_idx, r)) =
          (if seg_id item \<in> processed_captions r then word_idx
           else snd (fold (scan_token word_list) (split (lower (seg_text item))) ([], word_idx))))"
proof -
  define clean_iw where "clean_iw = filter isalnum iw"
  define hits where "hits = filter (\<lambda>wi. startswith (word (word_list ! wi)) (take 3 clean_iw))
                 [word_idx - 5 ..< min (length word_list) (word_idx + 20)]"
  have fm: "find_match word_list (take 3 clean_iw) (window word_list word_idx) =
      (case hits of [] \<Rightarrow> None | wi # _ \<Rightarrow> Some wi)"
    unfolding hits_def by (simp add: find_match_filter window_def)
  have a: "if clean_iw = [] \<or> hits = []
       then scan_token word_list iw (speaker_votes, word_idx) = (speaker_votes, word_idx)
       else snd (scan_token word_list iw (speaker_votes, word_idx)) = hd hits + 1
          \<and> map_of (fst (scan_token word_list iw (speaker_votes, word_idx))) =
              (map_of speaker_votes)
                (speaker (word_list ! hd hits) \<mapsto>
                   (case map_of speaker_votes (speaker (word_list ! hd hits)) of
                      None \<Rightarrow> 1 | Some c \<Rightarrow> c + 1))
          \<and> map fst (fst (scan_token word_list iw (speaker_votes, word_idx))) =
              (if speaker (word_list ! hd hits) \<in> fst ` set speaker_votes
               then map fst speaker_votes
               else map fst speaker_votes @ [speaker (word_list ! hd hits)])"
  proof (cases "clean_iw = [] \<or> hits = []")
    case True
    then have "scan_token word_list iw (speaker_votes, word_idx) = (speaker_votes, word_idx)"
      using fm by (auto simp: scan_token_cast clean_iw_def [symmetric] Let_def)
    then show ?thesis using True by simp
  next
    case False
    then obtain wi rest where h: "hits = wi # rest" by (cases hits) auto
    have "scan_token word_list iw (speaker_votes, word_idx) =
        (add_vote (speaker (word_list ! wi)) speaker_votes, wi + 1)"
      using False fm h by (simp add: scan_token_cast clean_iw_def [symmetric] Let_def)
    then show ?thesis
      using False h by (simp add: map_of_add_vote map_fst_add_vote)
  qed
  have b: "\<forall>w clean_iw. startswith w (take 3 clean_iw) =
          (if 3 \<le> length clean_iw then take 3 w = take 3 clean_iw
           else take (length clean_iw) w = clean_iw)"
    using startswith_long startswith_short by (auto simp: not_le)
  have c: "\<forall>item r. fst (align_item word_list item (word_idx, r)) =
          (if seg_id item \<in> processed_captions r then word_idx
           else snd (fold (scan_token word_list) (split (lower (seg_text item))) ([], word_idx)))"
    by (auto simp: align_item_def Let_def split: prod.splits list.splits)
  show ?thesis
    using a b c unfolding Let_def clean_iw_def hits_def by blast
qed

theorem scan_token_window_witness:
  "scan_token [\<lparr>word = ''hello'', speaker = 1\<rparr>, \<lparr>word = ''help'', speaker = 2\<rparr>] ''help!''
      ([(2, 1), (1, 1)], 0) = ([(2, 1), (1, 2)], 1)
   \<and> filter (\<lambda>wi. startswith
                (word ([\<lparr>word = ''hello'', speaker = 1\<rparr>, \<lparr>word = ''help'', speaker = 2\<rparr>] ! wi))
                (take 3 (filter isalnum ''help!'')))
        [0 - 5 ..< min (length [\<lparr>word = ''hello'', speaker = 1\<rparr>, \<lparr>word = ''help'', speaker = 2\<rparr>]) (0 + 20)]
     = [0, 1]
   \<and> map_of (fst (scan_token [\<lparr>word = ''hello'', speaker = 1\<rparr>, \<lparr>word = ''help'', speaker = 2\<rparr>]
        ''help!'' ([(2, 1), (1, 1)], 0))) 1 = Some 2"
proof -
  let ?wl = "[\<lparr>word = ''hello'', speaker = 1\<rparr>, \<lparr>word = ''help'', speaker = 2\<rparr>]"
  let ?v = "[(2, 1), (1, 1)] :: votes"
  have clean: "filter isalnum ''help!'' = ''help''"
    by (simp add: isalnum_def)
  have hits: "filter (\<lambda>wi. startswith (word (?wl ! wi)) (take 3 (filter isalnum ''help!'')))
                [0 - 5 ..< min (length ?wl) (0 + 20)] = [0, 1]"
    unfolding clean by (simp add: startswith_def upt_rec)
  have e: "scan_token ?wl ''help!'' (?v, 0) = ([(2, 1), (1, 2)], 1)"
    by (simp add: scan_token_def isalnum_def window_def startswith_def upt_rec dict_get_def)
  have "map_of (fst (scan_token ?wl ''help!'' (?v, 0))) =
          (map_of ?v)(speaker (?wl ! hd [0, 1]) \<mapsto>
             (case map_of ?v (speaker (?wl ! hd [0, 1])) of None \<Rightarrow> 1 | Some c \<Rightarrow> c + 1))"
    using scan_token_window [of "''help!''" ?wl 0 ?v]
    unfolding Let_def hits unfolding clean by simp
  then have "map_of (fst (scan_token ?wl ''help!'' (?v, 0))) 1 = Some 2"
    by simp
  then show ?thesis using e hits by blast
qed

text \<open>
  The tables are those of Python beyond ASCII too: \<^verbatim>\<open>'\xe9'.isalnum()\<close> holds, so the
  token \<^verbatim>\<open>\xe9a\<close> keeps both characters and does not hit the timeline word \<open>and\<close>;
  \<^verbatim>\<open>'\xc9'.lower()\<close> is \<^verbatim>\<open>'\xe9'\<close>, and \<^verbatim>\<open>split\<close> cuts at the no-break space
  \<^verbatim>\<open>'\xa0'\<close>.
\<close>

lemma latin1_token_example:
  "scan_token [\<lparr>word = ''and'', speaker = 2\<rparr>] [char_of (233 :: nat), CHR ''a''] ([], 0) = ([], 0)
   \<and> filter isalnum [char_of (233 :: nat), CHR ''a''] = [char_of (233 :: nat), CHR ''a'']
   \<and> lower [char_of (201 :: nat)] = [char_of (233 :: nat)]
   \<and> split [CHR ''a'', char_of (160 :: nat), CHR ''b''] = [''a'', ''b'']"
  by code_simp

text \<open>
  The claim as written (a hit exactly when the two three-character prefixes are equal)
  fails for short tokens: the token \<open>a\<close> hits the timeline word \<open>and\<close>.
\<close>

theorem prefix_hit_counterexample:
  "scan_token [\<lparr>word = ''and'', speaker = 2\<rparr>] ''a'' ([], 0) = ([(2, 1)], 1)
   \<and> take 3 ''and'' \<noteq> take 3 (filter isalnum ''a'')"
  by (simp add: scan_token_def window_def isalnum_def startswith_def dict_get_def)

lemma scan_token_cursor:
  "snd (scan_token word_list iw (speaker_votes, word_idx)) =
     (if filter isalnum iw = [] then word_idx
      else case find_match word_list (take 3 (filter isalnum iw)) (window word_list word_idx) of
             None \<Rightarrow> word_idx
           | Some wi \<Rightarrow> wi + 1)"
  by (simp add: scan_token_def Let_def split: option.splits)

lemma scan_token_cursor_bounds:
  "word_idx \<le> snd (scan_token word_list iw (speaker_votes, word_idx)) + 4
   \<and> snd (scan_token word_list iw (speaker_votes, word_idx)) \<le> max word_idx (length word_list)"
proof (cases "find_match word_list (take 3 (filter isalnum iw)) (window word_list word_idx)")
  case None
  then show ?thesis by (simp add: scan_token_cursor)
next
  case (Some wi)
  then have "wi \<in> set (window word_list word_idx)"
    using find_match_Some by blast
  then have "word_idx \<le> wi + 5" "wi < length word_list"
    using window_bounds by blast+
  then show ?thesis using Some by (auto simp: scan_token_cursor le_max_iff_disj)
qed

lemma fold_scan_token_cursor:
  "word_idx \<le> snd (fold (scan_token word_list) iws (speaker_votes, word_idx)) + 4 * length iws"
proof (induction iws arbitrary: speaker_votes word_idx)
  case Nil
  then show ?case by simp
next
  case (Cons iw iws)
  obtain v' i' where st: "scan_token word_list iw (speaker_votes, word_idx) = (v', i')"
    by (cases "scan_token word_list iw (speaker_votes, word_idx)")
  have "word_idx \<le> i' + 4"
    using scan_token_cursor_bounds [of word_idx word_list iw speaker_votes] st by simp
  moreover have "i' \<le> snd (fold (scan_token word_list) iws (v', i')) + 4 * length iws"
    by (rule Cons.IH)
  ultimately show ?case using st by simp
qed

text \<open>
  Claim C6, as amended. After a matched token the cursor is the position just after
  the matched word, which lies in the window: at most 4 positions before the old
  cursor. A token without a match, or with nothing left after cleaning, leaves the
  cursor where it is. So one token lowers the cursor by at most 4, and a pass over
  \<open>n\<close> tokens by at most \<open>4 * n\<close>.
\<close>

theorem cursor_after_token:
  "snd (scan_token word_list iw (speaker_votes, word_idx)) =
     (if filter isalnum iw = [] then word_idx
      else case find_match word_list (take 3 (filter isalnum iw)) (window word_list word_idx) of
             None \<Rightarrow> word_idx
           | Some wi \<Rightarrow> wi + 1)
   \<and> (\<forall>wi. find_match word_list (take 3 (filter isalnum iw)) (window word_list word_idx) = Some wi
          \<longrightarrow> word_idx \<le> wi + 5 \<and> wi < length word_list)
   \<and> word_idx \<le> snd (scan_token word_list iw (speaker_votes, word_idx)) + 4
   \<and> word_idx \<le> snd (fold (scan_token word_list) iws (speaker_votes, word_idx)) + 4 * length iws"
proof -
  have "\<forall>wi. find_match word_list (take 3 (filter isalnum iw)) (window word_list word_idx) = Some wi
          \<longrightarrow> word_idx \<le> wi + 5 \<and> wi < length word_list"
    using find_match_Some window_bounds by blast
  then show ?thesis
    using scan_token_cursor scan_token_cursor_bounds fold_scan_token_cursor by blast
qed

theorem cursor_after_token_witness:
  "find_match [\<lparr>word = ''the'', speaker = 1\<rparr>, \<lparr>word = ''cat'', speaker = 2\<rparr>]
     (take 3 (filter isalnum ''the'')) (window [\<lparr>word = ''the'', speaker = 1\<rparr>, \<lparr>word = ''cat'', speaker = 2\<rparr>] 2)
     = Some 0
   \<and> snd (scan_token [\<lparr>word = ''the'', speaker = 1\<rparr>, \<lparr>word = ''cat'', speaker = 2\<rparr>] ''the'' ([(2, 1)], 2)) = 1
   \<and> (2::nat) \<le> 0 + 5"
proof -
  let ?wl = "[\<lparr>word = ''the'', speaker = 1\<rparr>, \<lparr>word = ''cat'', speaker = 2\<rparr>]"
  have clean: "filter isalnum ''the'' = ''the''"
    by (simp add: isalnum_def)
  have m: "find_match ?wl (take 3 (filter isalnum ''the'')) (window ?wl 2) = Some 0"
    unfolding clean by (simp add: window_def startswith_def upt_rec)
  have "snd (scan_token ?wl ''the'' ([(2, 1)], 2)) =
     (if filter isalnum ''the'' = [] then 2
      else case find_match ?wl (take 3 (filter isalnum ''the'')) (window ?wl 2) of
             None \<Rightarrow> 2
           | Some wi \<Rightarrow> wi + 1)"
    and "\<forall>wi. find_match ?wl (take 3 (filter isalnum ''the'')) (window ?wl 2) = Some wi
          \<longrightarrow> 2 \<le> wi + 5 \<and> wi < length ?wl"
    using cursor_after_token [of ?wl "''the''" "[(2, 1)]" 2 "[]"] by blast+
  then have "snd (scan_token ?wl ''the'' ([(2, 1)], 2)) = 1" "(2::nat) \<le> 0 + 5"
    unfolding m unfolding clean by simp_all
  then show ?thesis using m by blast
qed

text \<open>
  The cursor is not forward-only: on the timeline \<open>the cat\<close>, the token \<open>cat\<close> moves the
  cursor from 0 to 2 and the token \<open>the\<close>, found behind it, moves it back to 1.
\<close>

theorem cursor_moves_back_counterexample:
  "scan_token [\<lparr>word = ''the'', speaker = 1\<rparr>, \<lparr>word = ''cat'', speaker = 2\<rparr>] ''cat'' ([], 0)
     = ([(2, 1)], 2)
   \<and> snd (scan_token [\<lparr>word = ''the'', speaker = 1\<rparr>, \<lparr>word = ''cat'', speaker = 2\<rparr>] ''the'' ([(2, 1)], 2)) < 2
   \<and> fst (align_item [\<lparr>word = ''the'', speaker = 1\<rparr>, \<lparr>word = ''cat'', speaker = 2\<rparr>]
            \<lparr>seg_id = 0, seg_text = ''Cat, the'', seg_time = 0\<rparr>
            (0, \<lparr>emitted = [], printed = [], recognize_calls = [], processed_captions = {}\<rparr>)) = 1"
  by (simp add: scan_token_def window_def isalnum_def startswith_def dict_get_def upt_rec
        align_item_def split_def lower_def lower_char_def isspace_def Let_def)


section \<open>The vote\<close>

lemma max_from_first:
  "\<exists>pre post. best # ks = pre @ max_from key best ks # post
     \<and> (\<forall>x\<in>set pre. key x < key (max_from key best ks))
     \<and> (\<forall>x\<in>set post. key x \<le> key (max_from key best ks))"
proof (induction ks arbitrary: best)
  case Nil
  have "[best] = [] @ max_from key best [] # []
     \<and> (\<forall>x\<in>set []. key x < key (max_from key best []))
     \<and> (\<forall>x\<in>set []. key x \<le> key (max_from key best []))"
    by simp
  then show ?case by blast
next
  case (Cons k ks)
  show ?case
  proof (cases "key best < key k")
    case True
    define r where "r = max_from key k ks"
    from Cons.IH [of k] obtain pre post where ih:
      "k # ks = pre @ r # post" "\<forall>x\<in>set pre. key x < key r" "\<forall>x\<in>set post. key x \<le> key r"
      unfolding r_def by blast
    have "key k \<le> key r"
    proof (cases pre)
      case Nil
      then show ?thesis using ih(1) by simp
    next
      case (Cons a pre')
      then have "k \<in> set pre" using ih(1) by simp
      then show ?thesis using ih(2) by fastforce
    qed
    then have "key best < key r" using True by simp
    then have "best # k # ks = (best # pre) @ r # post
       \<and> (\<forall>x\<in>set (best # pre). key x < key r) \<and> (\<forall>x\<in>set post. key x \<le> key r)"
      using ih by simp
    moreover have "max_from key best (k # ks) = r"
      using True by (simp add: r_def)
    ultimately show ?thesis by metis
  next
    case False
    define r where "r = max_from key best ks"
    from Cons.IH [of best] obtain pre post where ih:
      "best # ks = pre @ r # post" "\<forall>x\<in>set pre. key x < key r" "\<forall>x\<in>set post. key x \<le> key r"
      unfolding r_def by blast
    have r: "max_from key best (k # ks) = r"
      using False by (simp add: r_def)
    have "\<exists>pre' post'. best # k # ks = pre' @ r # post'
       \<and> (\<forall>x\<in>set pre'. key x < key r) \<and> (\<forall>x\<in>set post'. key x \<le> key r)"
    proof (cases pre)
      case Nil
      then have "best # k # ks = [] @ r # (k # post)
         \<and> (\<forall>x\<in>set []. key x < key r) \<and> (\<forall>x\<in>set (k # post). key x \<le> key r)"
        using ih(1) ih(3) False by auto
      then show ?thesis by blast
    next
      case (Cons a pre')
      then have "key best < key r" using ih(1) ih(2) by auto
      then have "best # k # ks = (best # k # pre') @ r # post
         \<and> (\<forall>x\<in>set (best # k # pre'). key x < key r) \<and> (\<forall>x\<in>set post. key x \<le> key r)"
        using ih Cons False by auto
      then show ?thesis by blast
    qed
    then show ?thesis unfolding r .
  qed
qed

lemma palette_index: "nat ((sp - 1) mod 5) < 5"
  by simp

lemma align_item_votes:
  assumes "seg_id item \<notin> processed_captions r"
    and "fold (scan_token word_list) (split (lower (seg_text item))) ([], word_idx) = (k # ks, word_idx')"
  shows "align_item word_list item (word_idx, r) =
     (let sp = max_from (\<lambda>s. dict_get (k # ks) s 0) (fst k) (map fst ks);
          name = speaker_names ! nat ((sp - 1) mod 5)
      in (word_idx',
          r\<lparr>emitted := emitted r @
                [Speaker_update (seg_id item) sp (speaker_colors ! nat ((sp - 1) mod 5)) name],
            printed := printed r @ [Assigned name (seg_id item) (take 40 (seg_text item))],
            processed_captions := insert (seg_id item) (processed_captions r)\<rparr>))"
  using assms
  by (cases k) (simp add: align_item_def Let_def speaker_colors_def speaker_names_def)

text \<open>
  Claim C7. When the scan of an unprocessed segment ends with a non-empty tally, the
  segment gets exactly one \<^verbatim>\<open>speaker_update\<close>. The tally holds, for every tag, the
  number of votes cast for it by the tokens of the segment (no entry for a tag without
  a vote), and its keys are the tags in the order of their first vote. The speaker is a
  key of the tally that splits the keys, in that order, into earlier keys with strictly
  fewer votes and later keys with at most as many: the tag with the most votes, the
  first of them in iteration order on a tie. Color and name are the entries
  \<open>(tag - 1) mod 5\<close> of the two palettes, and the id is added to
  \<^verbatim>\<open>processed_captions\<close>.
\<close>

theorem majority_speaker:
  assumes "seg_id item \<notin> processed_captions r"
    and "fold (scan_token word_list) (split (lower (seg_text item))) ([], word_idx)
           = (speaker_votes, word_idx')"
    and "speaker_votes \<noteq> []"
  shows "\<exists>sp pre post.
           emitted (snd (align_item word_list item (word_idx, r))) =
             emitted r @
               [Speaker_update (seg_id item) sp
                  (speaker_colors ! nat ((sp - 1) mod 5))
                  (speaker_names ! nat ((sp - 1) mod 5))]
         \<and> nat ((sp - 1) mod 5) < length speaker_colors
         \<and> nat ((sp - 1) mod 5) < length speaker_names
         \<and> (\<forall>k. map_of speaker_votes k =
                (if count_list (cast_votes word_list (split (lower (seg_text item))) word_idx) k = 0
                 then None
                 else Some (int (count_list
                        (cast_votes word_list (split (lower (seg_text item))) word_idx) k))))
         \<and> map fst speaker_votes =
             rev (remdups (rev (cast_votes word_list (split (lower (seg_text item))) word_idx)))
         \<and> map fst speaker_votes = pre @ sp # post
         \<and> (\<forall>k\<in>set pre.
               count_list (cast_votes word_list (split (lower (seg_text item))) word_idx) k
               < count_list (cast_votes word_list (split (lower (seg_text item))) word_idx) sp)
         \<and> (\<forall>k\<in>set post.
               count_list (cast_votes word_list (split (lower (seg_text item))) word_idx) k
               \<le> count_list (cast_votes word_list (split (lower (seg_text item))) word_idx) sp)
         \<and> processed_captions (snd (align_item word_list item (word_idx, r))) =
             insert (seg_id item) (processed_captions r)"
proof -
  define hs where "hs = cast_votes word_list (split (lower (seg_text item))) word_idx"
  have tally: "speaker_votes = fold add_vote hs []"
    using fold_scan_token_cast [of word_list "split (lower (seg_text item))" "[]" word_idx]
      assms(2) by (simp add: hs_def)
  have counts: "\<And>k. dict_get speaker_votes k 0 = int (count_list hs k)"
    unfolding tally by (rule count_of_tally)
  have m: "\<forall>k. map_of speaker_votes k =
      (if count_list hs k = 0 then None else Some (int (count_list hs k)))"
    unfolding tally by (simp add: map_of_tally)
  have keys: "map fst speaker_votes = rev (remdups (rev hs))"
    unfolding tally by (simp add: keys_tally)
  obtain k ks where votes: "speaker_votes = k # ks"
    using assms(3) by (cases speaker_votes) auto
  define sp where "sp = max_from (\<lambda>s. dict_get speaker_votes s 0) (fst k) (map fst ks)"
  have al: "align_item word_list item (word_idx, r) =
      (word_idx',
       r\<lparr>emitted := emitted r @
             [Speaker_update (seg_id item) sp (speaker_colors ! nat ((sp - 1) mod 5))
                (speaker_names ! nat ((sp - 1) mod 5))],
         printed := printed r @
             [Assigned (speaker_names ! nat ((sp - 1) mod 5)) (seg_id item) (take 40 (seg_text item))],
         processed_captions := insert (seg_id item) (processed_captions r)\<rparr>)"
    using align_item_votes [OF assms(1) assms(2) [unfolded votes]]
    by (simp add: Let_def sp_def votes)
  obtain pre post where pp: "fst k # map fst ks = pre @ sp # post"
      "\<forall>x\<in>set pre. dict_get speaker_votes x 0 < dict_get speaker_votes sp 0"
      "\<forall>x\<in>set post. dict_get speaker_votes x 0 \<le> dict_get speaker_votes sp 0"
    using max_from_first [of "fst k" "map fst ks" "\<lambda>s. dict_get speaker_votes s 0"]
    unfolding sp_def by blast
  have split_keys: "map fst speaker_votes = pre @ sp # post"
    using pp(1) votes by simp
  have less: "\<forall>x\<in>set pre. count_list hs x < count_list hs sp"
    using pp(2) by (simp add: counts)
  have le: "\<forall>x\<in>set post. count_list hs x \<le> count_list hs sp"
    using pp(3) by (simp add: counts)
  have idx: "nat ((sp - 1) mod 5) < length speaker_colors"
      "nat ((sp - 1) mod 5) < length speaker_names"
    by (simp_all add: speaker_colors_def speaker_names_def)
  show ?thesis
    unfolding hs_def [symmetric]
    using al m keys split_keys less le idx
    by (intro exI [of _ sp] exI [of _ pre] exI [of _ post]) simp
qed

theorem majority_speaker_witness:
  "cast_votes [\<lparr>word = ''well'', speaker = 3\<rparr>, \<lparr>word = ''hello'', speaker = 1\<rparr>,
               \<lparr>word = ''there'', speaker = 1\<rparr>]
     (split (lower ''well hello there'')) 0 = [3, 1, 1]
   \<and> fold (scan_token [\<lparr>word = ''well'', speaker = 3\<rparr>, \<lparr>word = ''hello'', speaker = 1\<rparr>,
               \<lparr>word = ''there'', speaker = 1\<rparr>])
       (split (lower ''well hello there'')) ([], 0) = ([(3, 1), (1, 2)], 3)
   \<and> emitted (snd (align_item [\<lparr>word = ''well'', speaker = 3\<rparr>, \<lparr>word = ''hello'', speaker = 1\<rparr>,
               \<lparr>word = ''there'', speaker = 1\<rparr>]
        \<lparr>seg_id = 0, seg_text = ''well hello there'', seg_time = 0\<rparr>
        (0, \<lparr>emitted = [], printed = [], recognize_calls = [], processed_captions = {}\<rparr>)))
     = [Speaker_update 0 1 ''#3498db'' ''Speaker 1'']"
proof -
  let ?wl = "[\<lparr>word = ''well'', speaker = 3\<rparr>, \<lparr>word = ''hello'', speaker = 1\<rparr>,
               \<lparr>word = ''there'', speaker = 1\<rparr>]"
  let ?item = "\<lparr>seg_id = 0, seg_text = ''well hello there'', seg_time = 0\<rparr>"
  let ?r = "\<lparr>emitted = [], printed = [], recognize_calls = [], processed_captions = {}\<rparr>"
  have c: "cast_votes ?wl (split (lower (seg_text ?item))) 0 = [3, 1, 1]"
    by code_simp
  have f: "fold (scan_token ?wl) (split (lower (seg_text ?item))) ([], 0) = ([(3, 1), (1, 2)], 3)"
    by code_simp
  have p: "seg_id ?item \<notin> processed_captions ?r" by simp
  have n: "[(3, 1), (1, 2)] \<noteq> ([] :: votes)" by simp
  obtain sp pre post where w:
    "emitted (snd (align_item ?wl ?item (0, ?r))) =
       emitted ?r @ [Speaker_update (seg_id ?item) sp
                  (speaker_colors ! nat ((sp - 1) mod 5))
                  (speaker_names ! nat ((sp - 1) mod 5))]"
    "map fst [(3, 1), (1, 2 :: int)] = pre @ sp # post"
    "\<forall>k\<in>set pre. count_list (cast_votes ?wl (split (lower (seg_text ?item))) 0) k
        < count_list (cast_votes ?wl (split (lower (seg_text ?item))) 0) sp"
    "\<forall>k\<in>set post. count_list (cast_votes ?wl (split (lower (seg_text ?item))) 0) k
        \<le> count_list (cast_votes ?wl (split (lower (seg_text ?item))) 0) sp"
    using majority_speaker [OF p f n] by blast
  have "sp = 1"
  proof (cases pre)
    case Nil
    then have "sp = 3" "post = [1]" using w(2) by simp_all
    then have "count_list [3, 1, 1] (1::int) \<le> count_list [3, 1, 1] (3::int)"
      using w(4) unfolding c by simp
    then show ?thesis by simp
  next
    case (Cons a pre')
    then have "[1] = pre' @ sp # post" using w(2) by simp
    then show ?thesis by (auto simp: Cons_eq_append_conv)
  qed
  then have "emitted (snd (align_item ?wl ?item (0, ?r))) = [Speaker_update 0 1 ''#3498db'' ''Speaker 1'']"
    using w(1) by (simp add: speaker_colors_def speaker_names_def)
  then show ?thesis using c f by simp
qed


section \<open>One reconciler thread\<close>

lemma update_ids_append: "update_ids (xs @ ys) = update_ids xs @ update_ids ys"
  by (induction xs rule: update_ids.induct) simp_all


text \<open>What one segment adds to the event stream and to the set of processed ids.\<close>

lemma align_item_effect:
  "(snd (align_item word_list item (word_idx, r)) = r
      \<or> (\<exists>sp c n lg. seg_id item \<notin> processed_captions r
            \<and> snd (align_item word_list item (word_idx, r)) =
                r\<lparr>emitted := emitted r @ [Speaker_update (seg_id item) sp c n],
                  printed := printed r @ [lg],
                  processed_captions := insert (seg_id item) (processed_captions r)\<rparr>))"
  by (auto simp: align_item_def Let_def split: prod.splits list.splits)

lemma only_updates_of_Nil [simp]: "only_updates_of ids []"
  by (simp add: only_updates_of_def)

lemma only_updates_of_append:
  "only_updates_of ids (xs @ ys) = (only_updates_of ids xs \<and> only_updates_of ids ys)"
  by (auto simp: only_updates_of_def)

lemma only_updates_of_mono: "only_updates_of ids es \<Longrightarrow> ids \<subseteq> ids' \<Longrightarrow> only_updates_of ids' es"
  by (fastforce simp: only_updates_of_def)

lemma only_updates_of_ids: "only_updates_of ids es \<Longrightarrow> set (update_ids es) \<subseteq> ids"
  by (induction es rule: update_ids.induct) (auto simp: only_updates_of_def)


lemma only_updates_no_transcript:
  "only_updates_of ids es \<Longrightarrow> filter is_transcript_event es = []"
  by (induction es) (auto simp: only_updates_of_def)

text \<open>
  The scan of a tick: the events it adds are updates for distinct ids of scanned
  segments that were not processed before, and exactly these ids become processed.
\<close>

lemma fold_align_item_effect:
  "\<exists>ups. emitted (snd (fold (align_item word_list) items (word_idx, r))) = emitted r @ ups
     \<and> only_updates_of (seg_id ` set items - processed_captions r) ups
     \<and> distinct (update_ids ups)
     \<and> processed_captions (snd (fold (align_item word_list) items (word_idx, r))) =
         processed_captions r \<union> set (update_ids ups)
     \<and> recognize_calls (snd (fold (align_item word_list) items (word_idx, r))) = recognize_calls r"
proof (induction items arbitrary: word_idx r)
  case Nil
  show ?case by simp
next
  case (Cons item items)
  obtain i1 r1 where st: "align_item word_list item (word_idx, r) = (i1, r1)"
    by (cases "align_item word_list item (word_idx, r)")
  from Cons.IH [of i1 r1] obtain ups where ih:
    "emitted (snd (fold (align_item word_list) items (i1, r1))) = emitted r1 @ ups"
    "only_updates_of (seg_id ` set items - processed_captions r1) ups"
    "distinct (update_ids ups)"
    "processed_captions (snd (fold (align_item word_list) items (i1, r1))) =
       processed_captions r1 \<union> set (update_ids ups)"
    "recognize_calls (snd (fold (align_item word_list) items (i1, r1))) = recognize_calls r1"
    by blast
  have new: "set (update_ids ups) \<subseteq> seg_id ` set items - processed_captions r1"
    using only_updates_of_ids [OF ih(2)] .
  from align_item_effect [of word_list item word_idx r] st
  consider "r1 = r"
    | sp c n lg where "seg_id item \<notin> processed_captions r"
        "r1 = r\<lparr>emitted := emitted r @ [Speaker_update (seg_id item) sp c n],
               printed := printed r @ [lg],
               processed_captions := insert (seg_id item) (processed_captions r)\<rparr>"
    by auto
  then show ?case
  proof cases
    case 1
    have "only_updates_of (seg_id ` set (item # items) - processed_captions r) ups"
      using ih(2) 1 by (auto intro: only_updates_of_mono)
    then show ?thesis using ih 1 st by auto
  next
    case 2
    let ?u = "Speaker_update (seg_id item) sp c n"
    have a: "emitted (snd (fold (align_item word_list) (item # items) (word_idx, r))) =
        emitted r @ (?u # ups)"
      using ih(1) 2(2) st by simp
    have b: "only_updates_of (seg_id ` set (item # items) - processed_captions r) (?u # ups)"
      using ih(2) 2 by (fastforce simp: only_updates_of_def)
    have c: "distinct (update_ids (?u # ups))"
      using ih(3) new 2(2) by auto
    have d: "processed_captions (snd (fold (align_item word_list) (item # items) (word_idx, r))) =
        processed_captions r \<union> set (update_ids (?u # ups))"
      using ih(4) 2(2) st by auto
    have e: "recognize_calls (snd (fold (align_item word_list) (item # items) (word_idx, r))) =
        recognize_calls r"
      using ih(5) 2(2) st by simp
    show ?thesis using a b c d e by blast
  qed
qed

lemma diarization_tick_effect:
  "\<exists>ups. emitted (diarization_tick transcripts audio outcome r) = emitted r @ ups
     \<and> only_updates_of (seg_id ` set transcripts - processed_captions r) ups
     \<and> distinct (update_ids ups)
     \<and> processed_captions (diarization_tick transcripts audio outcome r) =
         processed_captions r \<union> set (update_ids ups)"
proof -
  have triv: "\<And>r'. emitted r' = emitted r \<Longrightarrow> processed_captions r' = processed_captions r \<Longrightarrow>
    \<exists>ups. emitted r' = emitted r @ ups
     \<and> only_updates_of (seg_id ` set transcripts - processed_captions r) ups
     \<and> distinct (update_ids ups)
     \<and> processed_captions r' = processed_captions r \<union> set (update_ids ups)"
    by (rule exI [of _ "[]"]) simp
  have scan: "\<And>wl r2. emitted r2 = emitted r \<Longrightarrow> processed_captions r2 = processed_captions r \<Longrightarrow>
    \<exists>ups. emitted (snd (fold (align_item wl) transcripts (0, r2))) = emitted r @ ups
     \<and> only_updates_of (seg_id ` set transcripts - processed_captions r) ups
     \<and> distinct (update_ids ups)
     \<and> processed_captions (snd (fold (align_item wl) transcripts (0, r2))) =
          processed_captions r \<union> set (update_ids ups)"
    using fold_align_item_effect by metis
  show ?thesis
    unfolding diarization_tick_def Let_def
    by (auto split: diar_outcome.splits list.splits intro!: triv scan)
qed

text \<open>
  Claim C8. The threshold \<^verbatim>\<open>RATE * 2 * 10\<close> is 320000 bytes. A tick with no segment
  outside \<^verbatim>\<open>processed_captions\<close> changes nothing at all, whatever the audio: the test
  for unprocessed segments comes first, so not even the waiting message is printed. A
  tick with an unprocessed segment and less than 320000 bytes of audio only prints the
  waiting message. In both cases no diarization request is issued, no event is emitted
  and \<^verbatim>\<open>processed_captions\<close> is unchanged.
\<close>

theorem tick_skips:
  "RATE * 2 * 10 = 320000
   \<and> (filter (\<lambda>t. seg_id t \<notin> processed_captions r) transcripts = []
        \<longrightarrow> diarization_tick transcripts audio outcome r = r)
   \<and> (filter (\<lambda>t. seg_id t \<notin> processed_captions r) transcripts \<noteq> []
        \<and> length (concat audio) < 320000
        \<longrightarrow> diarization_tick transcripts audio outcome r =
              r\<lparr>printed := printed r @ [Waiting_for_more_audio]\<rparr>)
   \<and> (filter (\<lambda>t. seg_id t \<notin> processed_captions r) transcripts = []
        \<or> length (concat audio) < 320000
        \<longrightarrow> recognize_calls (diarization_tick transcripts audio outcome r) = recognize_calls r
          \<and> emitted (diarization_tick transcripts audio outcome r) = emitted r
          \<and> processed_captions (diarization_tick transcripts audio outcome r) =
              processed_captions r)"
  by (simp add: diarization_tick_def RATE_def Let_def)

theorem tick_skips_witness:
  "diarization_tick [\<lparr>seg_id = 0, seg_text = ''hello world'', seg_time = 0\<rparr>] [replicate 3200 0]
      (Returns [])
      \<lparr>emitted = [], printed = [], recognize_calls = [], processed_captions = {}\<rparr>
     = \<lparr>emitted = [], printed = [Waiting_for_more_audio], recognize_calls = [],
        processed_captions = {}\<rparr>
   \<and> diarization_tick [\<lparr>seg_id = 0, seg_text = ''hello world'', seg_time = 0\<rparr>] [replicate 3200 0]
      (Returns [])
      \<lparr>emitted = [], printed = [], recognize_calls = [], processed_captions = {0}\<rparr>
     = \<lparr>emitted = [], printed = [], recognize_calls = [], processed_captions = {0}\<rparr>"
proof -
  let ?tb = "[\<lparr>seg_id = 0, seg_text = ''hello world'', seg_time = 0\<rparr>]"
  let ?r = "\<lparr>emitted = [], printed = [], recognize_calls = [], processed_captions = {}\<rparr>"
  let ?r' = "\<lparr>emitted = [], printed = [], recognize_calls = [], processed_captions = {0}\<rparr>"
  have a: "filter (\<lambda>t. seg_id t \<notin> processed_captions ?r) ?tb \<noteq> []
           \<and> length (concat [replicate 3200 (0::byte)]) < 320000"
    by simp
  have b: "filter (\<lambda>t. seg_id t \<notin> processed_captions ?r') ?tb = []"
    by simp
  have "diarization_tick ?tb [replicate 3200 0] (Returns []) ?r =
          ?r\<lparr>printed := printed ?r @ [Waiting_for_more_audio]\<rparr>"
    using tick_skips [of ?r ?tb "[replicate 3200 0]" "Returns []"] a by blast
  moreover have "diarization_tick ?tb [replicate 3200 0] (Returns []) ?r' = ?r'"
    using tick_skips [of ?r' ?tb "[replicate 3200 0]" "Returns []"] b by blast
  ultimately show ?thesis by simp
qed



lemma diarization_tick_keeps_distinct:
  assumes "distinct (update_ids (emitted r))"
    and "set (update_ids (emitted r)) = processed_captions r"
  shows "distinct (update_ids (emitted (diarization_tick transcripts audio outcome r)))
       \<and> set (update_ids (emitted (diarization_tick transcripts audio outcome r))) =
           processed_captions (diarization_tick transcripts audio outcome r)"
proof -
  from diarization_tick_effect [of transcripts audio outcome r] obtain ups where ups:
    "emitted (diarization_tick transcripts audio outcome r) = emitted r @ ups"
    "only_updates_of (seg_id ` set transcripts - processed_captions r) ups"
    "distinct (update_ids ups)"
    "processed_captions (diarization_tick transcripts audio outcome r) =
       processed_captions r \<union> set (update_ids ups)"
    by blast
  have "set (update_ids ups) \<inter> processed_captions r = {}"
    using only_updates_of_ids [OF ups(2)] by auto
  then show ?thesis
    using assms ups(1) ups(3) ups(4) by (auto simp: update_ids_append)
qed

lemma diarization_loop_keeps_distinct:
  assumes "distinct (update_ids (emitted r))"
    and "set (update_ids (emitted r)) = processed_captions r"
  shows "distinct (update_ids (emitted (diarization_loop ticks r)))
       \<and> set (update_ids (emitted (diarization_loop ticks r))) =
           processed_captions (diarization_loop ticks r)"
  using assms
proof (induction ticks arbitrary: r)
  case Nil
  then show ?case by simp
next
  case (Cons e es)
  show ?case
  proof (cases "env_running e")
    case True
    let ?r' = "diarization_tick (env_transcripts e) (env_audio e) (env_outcome e) r"
    have "distinct (update_ids (emitted ?r'))"
        "set (update_ids (emitted ?r')) = processed_captions ?r'"
      using diarization_tick_keeps_distinct [OF Cons.prems] by blast+
    from Cons.IH [OF this] show ?thesis using True by simp
  next
    case False
    then show ?thesis using Cons.prems by simp
  qed
qed

section \<open>Runs of the session\<close>

lemma events_since_eq: "emitted s' = emitted s @ es \<Longrightarrow> events_since s s' = es"
  by (simp add: events_since_def)

lemma wake_and_tick_effect:
  "\<exists>ups. emitted (wake_and_tick k outcome s) = emitted s @ ups
     \<and> only_updates_of (seg_id ` set (transcript_buffer s)) ups
     \<and> transcript_buffer (wake_and_tick k outcome s) = transcript_buffer s
     \<and> caption_id (wake_and_tick k outcome s) = caption_id s
     \<and> is_running (wake_and_tick k outcome s) = is_running s
     \<and> stream_threads (wake_and_tick k outcome s) = stream_threads s"
proof (cases "k < length (diarization_threads s) \<and> phase (diarization_threads s ! k) = Sleeping")
  case True
  let ?r = "\<lparr>emitted = emitted s, printed = printed s, recognize_calls = recognize_calls s,
             processed_captions = processed (diarization_threads s ! k)\<rparr>"
  from diarization_tick_effect [of "transcript_buffer s" "audio_buffer s" outcome ?r]
  obtain ups where ups:
    "emitted (diarization_tick (transcript_buffer s) (audio_buffer s) outcome ?r) = emitted ?r @ ups"
    "only_updates_of (seg_id ` set (transcript_buffer s) - processed_captions ?r) ups"
    by blast
  have "only_updates_of (seg_id ` set (transcript_buffer s)) ups"
    using ups(2) by (rule only_updates_of_mono) auto
  then show ?thesis using True ups(1) by (simp add: wake_and_tick_def Let_def)
next
  case False
  then have "wake_and_tick k outcome s = s" by (auto simp: wake_and_tick_def)
  then show ?thesis by simp
qed

text \<open>Every step only appends to the event stream.\<close>

lemma emitted_step: "\<exists>es. emitted (step a s) = emitted s @ es"
proof (cases a)
  case (Tick k outcome)
  then show ?thesis using wake_and_tick_effect [of k outcome s] by auto
qed (auto simp: start_streaming_def stop_streaming_def leave_stream_audio_def
       streaming_error_def handle_response_def loop_test_def split: list.splits)

lemma emitted_step_since: "emitted (step a s) = emitted s @ events_since s (step a s)"
  using emitted_step [of a s] by (auto simp: events_since_def)

lemma emitted_run_since: "emitted (run acts s) = emitted s @ events_since s (run acts s)"
proof (induction acts arbitrary: s)
  case Nil
  show ?case by (simp add: run_def events_since_def)
next
  case (Cons a acts)
  have "emitted (run (a # acts) s) = emitted (run acts (step a s))"
    by (simp add: run_def)
  also have "\<dots> = emitted (step a s) @ events_since (step a s) (run acts (step a s))"
    by (rule Cons.IH)
  also have "\<dots> = emitted s @ events_since s (step a s) @ events_since (step a s) (run acts (step a s))"
    using emitted_step_since [of a s] by simp
  finally show ?case by (simp add: events_since_def)
qed

lemma events_since_run_Cons:
  "events_since s (run (a # acts) s) =
     events_since s (step a s) @ events_since (step a s) (run acts (step a s))"
proof -
  have "emitted (run (a # acts) s) =
      emitted s @ events_since s (step a s) @ events_since (step a s) (run acts (step a s))"
    using emitted_run_since [of acts "step a s"] emitted_step_since [of a s]
    by (simp add: run_def)
  then show ?thesis by (rule events_since_eq)
qed

lemma events_since_run_Nil: "events_since s (run [] s) = []"
  by (simp add: run_def events_since_def)


section \<open>Ids of the final events\<close>







section \<open>Speaker updates follow their final events\<close>








section \<open>Errors of the streaming path\<close>

lemma step_while_stopped:
  assumes "\<not> is_running s" and "a \<noteq> Start"
  shows "\<not> is_running (step a s)
       \<and> stream_threads (step a s) \<le> stream_threads s
       \<and> filter is_transcript_event (events_since s (step a s)) = []"
proof (cases a)
  case Start
  then show ?thesis using assms by simp
next
  case (Tick k outcome)
  from wake_and_tick_effect [of k outcome s] obtain ups where ups:
    "emitted (wake_and_tick k outcome s) = emitted s @ ups"
    "only_updates_of (seg_id ` set (transcript_buffer s)) ups"
    "is_running (wake_and_tick k outcome s) = is_running s"
    "stream_threads (wake_and_tick k outcome s) = stream_threads s"
    by blast
  have "events_since s (wake_and_tick k outcome s) = ups"
    using ups(1) by (rule events_since_eq)
  then show ?thesis
    using Tick ups assms only_updates_no_transcript by auto
qed (use assms in \<open>auto simp: events_since_def stop_streaming_def leave_stream_audio_def
       streaming_error_def loop_test_def\<close>)

lemma run_while_stopped:
  assumes "\<not> is_running s" and "Start \<notin> set acts"
  shows "\<not> is_running (run acts s)
       \<and> stream_threads (run acts s) \<le> stream_threads s
       \<and> filter is_transcript_event (events_since s (run acts s)) = []"
  using assms
proof (induction acts arbitrary: s)
  case Nil
  then show ?case by (simp add: events_since_run_Nil) (simp add: run_def)
next
  case (Cons a acts)
  have a: "a \<noteq> Start" and rest: "Start \<notin> set acts" using Cons.prems(2) by auto
  have st: "\<not> is_running (step a s)" "stream_threads (step a s) \<le> stream_threads s"
      "filter is_transcript_event (events_since s (step a s)) = []"
    using step_while_stopped [OF Cons.prems(1) a] by blast+
  have ih: "\<not> is_running (run acts (step a s))"
      "stream_threads (run acts (step a s)) \<le> stream_threads (step a s)"
      "filter is_transcript_event (events_since (step a s) (run acts (step a s))) = []"
    using Cons.IH [OF st(1) rest] by blast+
  have ev: "filter is_transcript_event (events_since s (run (a # acts) s)) = []"
    using st(3) ih(3) by (simp add: events_since_run_Cons)
  have "run (a # acts) s = run acts (step a s)" by (simp add: run_def)
  then have "\<not> is_running (run (a # acts) s)"
      "stream_threads (run (a # acts) s) \<le> stream_threads s"
    using st(2) ih(1) ih(2) by simp_all
  then show ?case using ev by blast
qed

text \<open>
  Claim C10. An exception in a live \<^verbatim>\<open>stream_audio\<close> thread ends that thread: it emits
  the \<^verbatim>\<open>error\<close> event with the message, the status \<^verbatim>\<open>Error: <message>\<close> and last the
  status \<^verbatim>\<open>Stopped\<close>, and it clears \<^verbatim>\<open>is_running\<close>. Nothing restarts the session:
  through all later steps other than a \<^verbatim>\<open>start\<close> command the flag stays off, no
  streaming thread is added, and no \<^verbatim>\<open>interim\<close> or \<^verbatim>\<open>final\<close> event is emitted. A
  \<^verbatim>\<open>start\<close> command then sets the flag and starts a new streaming thread.
\<close>

theorem streaming_error_stops_session:
  assumes "0 < stream_threads s" and "Start \<notin> set acts"
  shows "emitted (step (Stream_raises msg) s) =
           emitted s @ [Error_event msg, Status (''Error: '' @ msg), Status ''Stopped'']
       \<and> \<not> is_running (step (Stream_raises msg) s)
       \<and> stream_threads (step (Stream_raises msg) s) = stream_threads s - 1
       \<and> transcript_buffer (step (Stream_raises msg) s) = transcript_buffer s
       \<and> \<not> is_running (run acts (step (Stream_raises msg) s))
       \<and> stream_threads (run acts (step (Stream_raises msg) s)) \<le> stream_threads s - 1
       \<and> filter is_transcript_event
            (events_since (step (Stream_raises msg) s) (run acts (step (Stream_raises msg) s))) = []
       \<and> is_running (step Start (run acts (step (Stream_raises msg) s)))
       \<and> stream_threads (step Start (run acts (step (Stream_raises msg) s))) =
           stream_threads (run acts (step (Stream_raises msg) s)) + 1"
proof -
  let ?s' = "step (Stream_raises msg) s"
  have now: "emitted ?s' = emitted s @ [Error_event msg, Status (''Error: '' @ msg), Status ''Stopped'']"
      "\<not> is_running ?s'" "stream_threads ?s' = stream_threads s - 1"
      "transcript_buffer ?s' = transcript_buffer s"
    using assms(1) by (simp_all add: streaming_error_def leave_stream_audio_def)
  have later: "\<not> is_running (run acts ?s')" "stream_threads (run acts ?s') \<le> stream_threads ?s'"
      "filter is_transcript_event (events_since ?s' (run acts ?s')) = []"
    using run_while_stopped [OF now(2) assms(2)] by blast+
  have again: "is_running (step Start (run acts ?s'))"
      "stream_threads (step Start (run acts ?s')) = stream_threads (run acts ?s') + 1"
    using later(1) by (simp_all add: start_streaming_def)
  show ?thesis using now later again by simp
qed

theorem streaming_error_stops_session_witness:
  "0 < stream_threads (step Start init_app)
   \<and> Start \<notin> set [Response [\<lparr>alternatives = [\<lparr>transcript = ''late'', words = []\<rparr>],
                               is_final = True\<rparr>] 2, Chunk [0, 0], Loop_test 0]
   \<and> emitted (run [Response [\<lparr>alternatives = [\<lparr>transcript = ''late'', words = []\<rparr>],
                               is_final = True\<rparr>] 2, Chunk [0, 0], Loop_test 0]
                (step (Stream_raises ''deadline exceeded'') (step Start init_app)))
     = [Status ''Listening...'', Error_event ''deadline exceeded'',
        Status ''Error: deadline exceeded'', Status ''Stopped'']
   \<and> \<not> is_running (run [Response [\<lparr>alternatives = [\<lparr>transcript = ''late'', words = []\<rparr>],
                               is_final = True\<rparr>] 2, Chunk [0, 0], Loop_test 0]
                (step (Stream_raises ''deadline exceeded'') (step Start init_app)))"
proof -
  let ?acts = "[Response [\<lparr>alternatives = [\<lparr>transcript = ''late'', words = []\<rparr>],
                               is_final = True\<rparr>] 2, Chunk [0, 0], Loop_test 0]"
  have t: "0 < stream_threads (step Start init_app)"
    by (simp add: init_app_def start_streaming_def)
  have n: "Start \<notin> set ?acts" by simp
  have e: "emitted (run ?acts (step (Stream_raises ''deadline exceeded'') (step Start init_app)))
     = [Status ''Listening...'', Error_event ''deadline exceeded'',
        Status ''Error: deadline exceeded'', Status ''Stopped'']"
    by (simp add: run_def init_app_def start_streaming_def streaming_error_def
          leave_stream_audio_def loop_test_def)
  have "\<not> is_running (run ?acts (step (Stream_raises ''deadline exceeded'') (step Start init_app)))"
    using streaming_error_stops_session [OF t n, of "''deadline exceeded''"] by blast
  then show ?thesis using t n e by blast
qed


section \<open>No second speaker update\<close>

lemma wake_and_tick_thread:
  assumes "k < length (diarization_threads s)"
    and "phase (diarization_threads s ! k) = Sleeping"
  shows "\<exists>ups. emitted (wake_and_tick k outcome s) = emitted s @ ups
     \<and> distinct (update_ids ups)
     \<and> set (update_ids ups) \<inter> processed (diarization_threads s ! k) = {}
     \<and> diarization_threads (wake_and_tick k outcome s) =
         (diarization_threads s)
           [k := \<lparr>phase = At_test,
                  processed = processed (diarization_threads s ! k) \<union> set (update_ids ups)\<rparr>]"
proof -
  let ?r = "\<lparr>emitted = emitted s, printed = printed s, recognize_calls = recognize_calls s,
             processed_captions = processed (diarization_threads s ! k)\<rparr>"
  from diarization_tick_effect [of "transcript_buffer s" "audio_buffer s" outcome ?r]
  obtain ups where ups:
    "emitted (diarization_tick (transcript_buffer s) (audio_buffer s) outcome ?r) = emitted ?r @ ups"
    "only_updates_of (seg_id ` set (transcript_buffer s) - processed_captions ?r) ups"
    "distinct (update_ids ups)"
    "processed_captions (diarization_tick (transcript_buffer s) (audio_buffer s) outcome ?r) =
       processed_captions ?r \<union> set (update_ids ups)"
    by blast
  have "set (update_ids ups) \<inter> processed (diarization_threads s ! k) = {}"
    using only_updates_of_ids [OF ups(2)] by auto
  then show ?thesis
    using assms ups(1) ups(3) ups(4) by (simp add: wake_and_tick_def Let_def)
qed

lemma step_sole_reconciler:
  assumes "sole_reconciler k s" and "a \<noteq> Start"
  shows "sole_reconciler k (step a s)
       \<and> distinct (update_ids (events_since s (step a s)))
       \<and> set (update_ids (events_since s (step a s))) \<inter> processed (diarization_threads s ! k) = {}
       \<and> processed (diarization_threads s ! k) \<union> set (update_ids (events_since s (step a s)))
           \<subseteq> processed (diarization_threads (step a s) ! k)"
proof (cases a)
  case Start
  then show ?thesis using assms by simp
next
  case (Loop_test j)
  then show ?thesis
    using assms(1)
    by (auto simp: loop_test_def sole_reconciler_def events_since_def nth_list_update)
next
  case (Tick j outcome)
  show ?thesis
  proof (cases "j < length (diarization_threads s) \<and> phase (diarization_threads s ! j) = Sleeping")
    case True
    then have jk: "j = k" using assms(1) by (auto simp: sole_reconciler_def)
    from wake_and_tick_thread [of k s outcome] True jk obtain ups where ups:
      "emitted (wake_and_tick k outcome s) = emitted s @ ups"
      "distinct (update_ids ups)"
      "set (update_ids ups) \<inter> processed (diarization_threads s ! k) = {}"
      "diarization_threads (wake_and_tick k outcome s) =
         (diarization_threads s)
           [k := \<lparr>phase = At_test,
                  processed = processed (diarization_threads s ! k) \<union> set (update_ids ups)\<rparr>]"
      by blast
    have ev: "events_since s (wake_and_tick k outcome s) = ups"
      using ups(1) by (rule events_since_eq)
    have "sole_reconciler k (wake_and_tick k outcome s)"
      using assms(1) ups(4) by (auto simp: sole_reconciler_def nth_list_update)
    then show ?thesis
      using Tick jk ev ups(2) ups(3) ups(4) assms(1) by (simp add: sole_reconciler_def)
  next
    case False
    then have "wake_and_tick j outcome s = s" by (auto simp: wake_and_tick_def)
    then show ?thesis using Tick assms(1) by (simp add: events_since_def)
  qed
qed (use assms in \<open>auto simp: events_since_def stop_streaming_def leave_stream_audio_def
       streaming_error_def handle_response_def sole_reconciler_def split: list.splits\<close>)

lemma run_sole_reconciler:
  assumes "sole_reconciler k s" and "Start \<notin> set acts"
    and "ids \<subseteq> processed (diarization_threads s ! k)"
  shows "distinct (update_ids (events_since s (run acts s)))
       \<and> set (update_ids (events_since s (run acts s))) \<inter> ids = {}"
  using assms
proof (induction acts arbitrary: s ids)
  case Nil
  show ?case by (simp add: events_since_run_Nil)
next
  case (Cons a acts)
  define E1 where "E1 = update_ids (events_since s (step a s))"
  define E2 where "E2 = update_ids (events_since (step a s) (run acts (step a s)))"
  have a: "a \<noteq> Start" and rest: "Start \<notin> set acts" using Cons.prems(2) by auto
  have st: "sole_reconciler k (step a s)" "distinct E1"
      "set E1 \<inter> processed (diarization_threads s ! k) = {}"
      "processed (diarization_threads s ! k) \<union> set E1
         \<subseteq> processed (diarization_threads (step a s) ! k)"
    using step_sole_reconciler [OF Cons.prems(1) a] unfolding E1_def by blast+
  have "ids \<union> set E1 \<subseteq> processed (diarization_threads (step a s) ! k)"
    using st(4) Cons.prems(3) by auto
  from Cons.IH [OF st(1) rest this]
  have ih: "distinct E2" "set E2 \<inter> (ids \<union> set E1) = {}"
    unfolding E2_def by blast+
  have "update_ids (events_since s (run (a # acts) s)) = E1 @ E2"
    unfolding E1_def E2_def by (simp add: events_since_run_Cons update_ids_append)
  moreover have "distinct (E1 @ E2)" using st(2) ih by auto
  moreover have "set (E1 @ E2) \<inter> ids = {}" using st(3) ih(2) Cons.prems(3) by auto
  ultimately show ?case by simp
qed

lemma start_sole_reconciler:
  assumes "\<not> is_running s" and "\<forall>d\<in>set (diarization_threads s). phase d = Exited"
  shows "sole_reconciler (length (diarization_threads s)) (step Start s)"
  using assms by (auto simp: sole_reconciler_def start_streaming_def nth_append)

text \<open>
  Whatever a reconciler thread observes in its ticks, the \<^verbatim>\<open>speaker_update\<close> events it
  emits carry pairwise distinct ids, and these ids are exactly its
  \<^verbatim>\<open>processed_captions\<close>: an id that has been emitted and recorded is never emitted
  again by a later tick of the same thread, also when the segment is scanned again. So
  in a session whose reconciler is the only one (the reconcilers of earlier sessions
  have left their loops when the session starts), no id gets a second
  \<^verbatim>\<open>speaker_update\<close> up to the next \<^verbatim>\<open>start\<close> command.
\<close>

lemma reconciler_updates_distinct:
  "distinct (update_ids (emitted (run_diarization ticks)))
   \<and> set (update_ids (emitted (run_diarization ticks))) =
       processed_captions (run_diarization ticks)
   \<and> (\<not> is_running s \<and> (\<forall>d\<in>set (diarization_threads s). phase d = Exited)
        \<and> Start \<notin> set acts
      \<longrightarrow> distinct (update_ids (events_since (step Start s) (run acts (step Start s)))))"
proof -
  have thread: "distinct (update_ids (emitted (run_diarization ticks)))
      \<and> set (update_ids (emitted (run_diarization ticks))) =
          processed_captions (run_diarization ticks)"
    unfolding run_diarization_def
    by (rule diarization_loop_keeps_distinct) simp_all
  have session: "distinct (update_ids (events_since (step Start s) (run acts (step Start s))))"
    if "\<not> is_running s" "\<forall>d\<in>set (diarization_threads s). phase d = Exited"
       "Start \<notin> set acts"
    using run_sole_reconciler [OF start_sole_reconciler [OF that(1) that(2)] that(3), of "{}"]
    by simp
  show ?thesis using thread session by blast
qed

text \<open>
  Claim C1. The claim that no id gets more than one \<^verbatim>\<open>speaker_update\<close> within a session
  fails after a quick restart. \<^verbatim>\<open>start_streaming\<close> waits for the previous reconciler
  with \<^verbatim>\<open>join(timeout=1)\<close>, under the comment ``Wait for any previous threads to
  finish'', while that thread sleeps 10 seconds between two loop tests. In the run
  below the reconciler of the first session is asleep at \<^verbatim>\<open>stop\<close> and still asleep at
  the second \<^verbatim>\<open>start\<close>; it wakes up in the second session, finds \<^verbatim>\<open>is_running\<close>
  set again, and keeps its own \<^verbatim>\<open>processed_captions\<close> \<open>{0}\<close>. Both reconcilers then
  label the segment with id 1 of the second session: the event stream carries two
  \<^verbatim>\<open>speaker_update\<close> events for id 1 after the second \<^verbatim>\<open>Listening...\<close>.
\<close>

theorem old_reconciler_repeats_update:
  "emitted (run
     [Start,
      Response [\<lparr>alternatives = [\<lparr>transcript = ''good morning'', words = []\<rparr>],
                 is_final = True\<rparr>] 1,
      Loop_test 0,
      Chunk (replicate 320000 0),
      Tick 0 (Returns [\<lparr>alternatives = [\<lparr>transcript = ''good morning'',
         words = [\<lparr>wi_word = ''good'', speaker_tag = Some 1\<rparr>,
                  \<lparr>wi_word = ''morning'', speaker_tag = Some 1\<rparr>]\<rparr>], is_final = True\<rparr>]),
      Loop_test 0,
      Stop,
      Response [] 2,
      Start,
      Response [\<lparr>alternatives = [\<lparr>transcript = ''hi there'', words = []\<rparr>],
                 is_final = True\<rparr>] 3,
      Response [\<lparr>alternatives = [\<lparr>transcript = ''how are you'', words = []\<rparr>],
                 is_final = True\<rparr>] 4,
      Loop_test 1,
      Chunk (replicate 320000 0),
      Tick 1 (Returns [\<lparr>alternatives = [\<lparr>transcript = ''hi there how are you'',
         words = [\<lparr>wi_word = ''hi'', speaker_tag = Some 1\<rparr>,
                  \<lparr>wi_word = ''there'', speaker_tag = Some 1\<rparr>,
                  \<lparr>wi_word = ''how'', speaker_tag = Some 2\<rparr>,
                  \<lparr>wi_word = ''are'', speaker_tag = Some 2\<rparr>,
                  \<lparr>wi_word = ''you'', speaker_tag = Some 2\<rparr>]\<rparr>], is_final = True\<rparr>]),
      Tick 0 (Returns [\<lparr>alternatives = [\<lparr>transcript = ''hi there how are you'',
         words = [\<lparr>wi_word = ''hi'', speaker_tag = Some 1\<rparr>,
                  \<lparr>wi_word = ''there'', speaker_tag = Some 1\<rparr>,
                  \<lparr>wi_word = ''how'', speaker_tag = Some 2\<rparr>,
                  \<lparr>wi_word = ''are'', speaker_tag = Some 2\<rparr>,
                  \<lparr>wi_word = ''you'', speaker_tag = Some 2\<rparr>]\<rparr>], is_final = True\<rparr>])]
     init_app)
   = [Status ''Listening...'',
      Final 0 ''good morning'',
      Speaker_update 0 1 ''#3498db'' ''Speaker 1'',
      Status ''Stopped'',
      Status ''Stopped'',
      Status ''Listening...'',
      Final 0 ''hi there'',
      Final 1 ''how are you'',
      Speaker_update 0 1 ''#3498db'' ''Speaker 1'',
      Speaker_update 1 2 ''#e74c3c'' ''Speaker 2'',
      Speaker_update 1 2 ''#e74c3c'' ''Speaker 2'']"
  by (simp add: run_def init_app_def start_streaming_def stop_streaming_def
        leave_stream_audio_def handle_response_def loop_test_def wake_and_tick_def
        diarization_tick_def RATE_def build_word_list_def align_item_def split_def
        lower_def lower_char_def isspace_def isalnum_def scan_token_def window_def
        startswith_def dict_get_def speaker_colors_def speaker_names_def Let_def)

end
